theory Spec2Isabelle
  imports Complex_Main
begin

section \<open>Values\<close>

text \<open>
  JavaScript numbers are represented by the distinctions the module depends on: NaN, the two
  infinities, negative zero, and the remaining finite values as rationals (\<open>Fin 0\<close> is
  positive zero). Rounding is not modelled; the only arithmetic the module performs is
  \<open>1 / x\<close> at a zero.
\<close>

datatype jsnum = NaN | PosInf | NegInf | NegZero | Fin rat

type_synonym addr = nat

datatype val = VUndefined | VNull | VBool bool | VNum jsnum | VStr string | VRef addr

datatype jstype = TUndefined | TObject | TBoolean | TNumber | TString | TFunction

datatype error = TypeError | OutOfFuel

text \<open>The operator \<open>===\<close> on numbers: NaN equals nothing, the two zeros are equal.\<close>

definition num_eq :: "jsnum \<Rightarrow> jsnum \<Rightarrow> bool" where
  "num_eq a b =
     (a \<noteq> NaN \<and> b \<noteq> NaN \<and> (a = b \<or> (a \<in> {NegZero, Fin 0} \<and> b \<in> {NegZero, Fin 0})))"

fun strict_eq :: "val \<Rightarrow> val \<Rightarrow> bool" where
  "strict_eq (VNum a) (VNum b) = num_eq a b"
| "strict_eq a b = (a = b)"

text \<open>The quotient \<open>1 / x\<close> on numbers.\<close>

fun recip :: "jsnum \<Rightarrow> jsnum" where
  "recip NaN = NaN"
| "recip PosInf = Fin 0"
| "recip NegInf = NegZero"
| "recip NegZero = NegInf"
| "recip (Fin q) = (if q = 0 then PosInf else Fin (1 / q))"

text \<open>
  \<^verbatim>\<open>lhs === rhs && (lhs !== 0 || 1 / lhs === 1 / rhs) || lhs !== lhs && rhs !== rhs\<close>.
  The quotients are evaluated only when \<open>lhs === 0\<close> and \<open>lhs === rhs\<close>, that is when both
  operands are numbers; the other branch of the \<open>case\<close> is never reached.
\<close>

definition js_is :: "val \<Rightarrow> val \<Rightarrow> bool" where
  "js_is lhs rhs =
     ((strict_eq lhs rhs \<and>
        (\<not> strict_eq lhs (VNum (Fin 0)) \<or>
         (case (lhs, rhs) of
            (VNum a, VNum b) \<Rightarrow> num_eq (recip a) (recip b)
          | _ \<Rightarrow> False)))
      \<or> (\<not> strict_eq lhs lhs \<and> \<not> strict_eq rhs rhs))"

definition truthy :: "val \<Rightarrow> bool" where
  "truthy v =
     (case v of
        VUndefined \<Rightarrow> False
      | VNull \<Rightarrow> False
      | VBool b \<Rightarrow> b
      | VNum n \<Rightarrow> n \<noteq> NaN \<and> n \<noteq> NegZero \<and> n \<noteq> Fin 0
      | VStr s \<Rightarrow> s \<noteq> []
      | VRef a \<Rightarrow> True)"

section \<open>Objects, listeners and the module state\<close>

text \<open>
  A raw listener is a function object; the number it carries is its identity, so that
  \<open>callbacks.indexOf(callback)\<close> is equality of listeners.
  \<^item> \<open>OnChange f s\<close> is \<open>changeCollector.onChange.bind(changeCollector)\<close> for the collector
    with \<open>_seq = s\<close>;
  \<^item> \<open>Repath f prop cb\<close> is the closure
    \<^verbatim>\<open>function (nestedProp, oldVal, newVal) { callback(prop + "." + nestedProp, oldVal, newVal); }\<close>
    created by \<open>watchPojo\<close> around its own argument \<open>callback\<close>.
\<close>

datatype listener = OnChange nat nat | Repath nat string listener

text \<open>
  The handle \<^verbatim>\<open>{ remove: function () {...} }\<close> returned by \<open>watchPojo\<close>: its closure holds
  the listener array of one object and the listener that was pushed.
\<close>

datatype sub = Sub addr listener

text \<open>
  A property is a plain data property, or the accessor pair installed by \<open>watchPojo\<close>, whose
  closure holds the shadow value \<open>curVal\<close>, the variable \<open>nestedWatcher\<close> and the argument
  \<open>callback\<close> of the call that installed it.
\<close>

datatype slot = Data val | Accessor val "sub option" listener

record obj =
  callable :: bool
  props :: "(string \<times> slot) list"

record collector =
  callback :: nat
  oldVals :: "(string \<times> val) list"

text \<open>
  The module's variables: \<open>wmap\<close> is the WeakMap \<open>map\<close>, \<open>collectors\<close> holds the
  ChangeCollector instances by their \<open>_seq\<close>, \<open>hotChangeCollectors\<close> lists the keys of that
  object in insertion order, \<open>deliverHandle\<close> tells whether a handle is held, and \<open>fid\<close> is
  the identity the next function object gets. Objects live in \<open>heap\<close>.
\<close>

record world =
  heap :: "addr \<Rightarrow> obj"
  wmap :: "addr \<Rightarrow> listener list option"
  seq :: nat
  collectors :: "nat \<Rightarrow> collector"
  hotChangeCollectors :: "nat list"
  deliverHandle :: bool
  fid :: nat

definition typeof :: "(addr \<Rightarrow> obj) \<Rightarrow> val \<Rightarrow> jstype" where
  "typeof h v =
     (case v of
        VUndefined \<Rightarrow> TUndefined
      | VNull \<Rightarrow> TObject
      | VBool b \<Rightarrow> TBoolean
      | VNum n \<Rightarrow> TNumber
      | VStr s \<Rightarrow> TString
      | VRef a \<Rightarrow> (if callable (h a) then TFunction else TObject))"

definition slot_val :: "slot \<Rightarrow> val" where
  "slot_val s = (case s of Data v \<Rightarrow> v | Accessor curVal nestedWatcher cb \<Rightarrow> curVal)"

text \<open>
  Every object inherits the members of \<open>Object.prototype\<close>. They are not enumerable; the
  built-in that each name holds is an object of the heap, at the address listed here, and
  the heap says what that object is. The module looks at such a value only in \<open>diff\<close>,
  where it compares it with \<open>is\<close> and passes it on as the old side of a nested diff.
\<close>

definition object_prototype :: "(string \<times> addr) list" where
  "object_prototype =
     [(''constructor'', 1000), (''hasOwnProperty'', 1001), (''isPrototypeOf'', 1002),
      (''propertyIsEnumerable'', 1003), (''toLocaleString'', 1004), (''toString'', 1005),
      (''valueOf'', 1006), (''__proto__'', 1007), (''__defineGetter__'', 1008),
      (''__defineSetter__'', 1009), (''__lookupGetter__'', 1010), (''__lookupSetter__'', 1011)]"

text \<open>
  \<open>obj[prop]\<close> on an object: the own property, through the getter where there is one, else
  the inherited member, else undefined. The module reads a property of a primitive only in
  \<open>obj.observe\<close>, a name that no built-in prototype holds.
\<close>

definition get_prop :: "(addr \<Rightarrow> obj) \<Rightarrow> val \<Rightarrow> string \<Rightarrow> val" where
  "get_prop h v prop =
     (case v of
        VRef a \<Rightarrow>
          (case map_of (props (h a)) prop of
             Some s \<Rightarrow> slot_val s
           | None \<Rightarrow> (case map_of object_prototype prop of Some b \<Rightarrow> VRef b | None \<Rightarrow> VUndefined))
      | _ \<Rightarrow> VUndefined)"

text \<open>
  \<open>prop in obj\<close>: own or inherited; it throws a TypeError when the right operand is not an
  object.
\<close>

definition has_prop :: "(addr \<Rightarrow> obj) \<Rightarrow> val \<Rightarrow> string \<Rightarrow> error + bool" where
  "has_prop h v prop =
     (case v of
        VRef a \<Rightarrow> Inr (prop \<in> set (map fst (props (h a))) \<or> prop \<in> set (map fst object_prototype))
      | _ \<Rightarrow> Inl TypeError)"

text \<open>The enumerable keys of a value, in insertion order.\<close>

definition keys :: "(addr \<Rightarrow> obj) \<Rightarrow> val \<Rightarrow> string list" where
  "keys h v = (case v of VRef a \<Rightarrow> map fst (props (h a)) | _ \<Rightarrow> [])"

text \<open>\<open>Object.defineProperty\<close> and plain assignment: an existing key keeps its place.\<close>

fun put :: "string \<Rightarrow> slot \<Rightarrow> (string \<times> slot) list \<Rightarrow> (string \<times> slot) list" where
  "put k s [] = [(k, s)]"
| "put k s ((k', s') # ps) = (if k = k' then (k, s) # ps else (k', s') # put k s ps)"

definition defineProperty :: "addr \<Rightarrow> string \<Rightarrow> slot \<Rightarrow> world \<Rightarrow> world" where
  "defineProperty a prop s w =
     w\<lparr>heap := (heap w)(a := (heap w a)\<lparr>props := put prop s (props (heap w a))\<rparr>)\<rparr>"

section \<open>Change collectors\<close>

text \<open>
  \<open>ChangeCollector.onChange(prop, oldVal)\<close>. The map \<open>oldVals\<close> is a plain object, so
  \<open>prop in this.oldVals\<close> also holds of every name that \<open>Object.prototype\<close> holds. The
  scheduling primitive is taken to return a truthy handle.
\<close>

definition onChange :: "nat \<Rightarrow> string \<Rightarrow> val \<Rightarrow> world \<Rightarrow> world" where
  "onChange s prop oldVal w =
     (let c = collectors w s;
          w1 = (if \<not> (prop \<in> set (map fst (oldVals c)) \<or> prop \<in> set (map fst object_prototype))
                then w\<lparr>collectors := (collectors w)(s := c\<lparr>oldVals := oldVals c @ [(prop, oldVal)]\<rparr>),
                       hotChangeCollectors :=
                         (if s \<in> set (hotChangeCollectors w) then hotChangeCollectors w
                          else hotChangeCollectors w @ [s])\<rparr>
                else w)
      in if \<not> deliverHandle w1 then w1\<lparr>deliverHandle := True\<rparr> else w1)"

text \<open>Calling a raw listener with \<open>(prop, oldVal, newVal)\<close>; the bound intake drops the third.\<close>

fun call_listener :: "listener \<Rightarrow> string \<Rightarrow> val \<Rightarrow> val \<Rightarrow> world \<Rightarrow> world" where
  "call_listener (OnChange f s) prop oldVal newVal w = onChange s prop oldVal w"
| "call_listener (Repath f prop cb) nestedProp oldVal newVal w =
     call_listener cb (prop @ ''.'' @ nestedProp) oldVal newVal w"

section \<open>Deep diff\<close>

text \<open>
  \<open>diff(oldObj, newObj, notify, prefix)\<close>, with the \<open>for ... in\<close> loop over the keys still to
  visit; \<open>changed\<close> is the condition
  \<^verbatim>\<open>!oldObj || !(prop in oldObj) || !is(oldObj[prop], newObj[prop])\<close>. A nested call takes
  one unit of fuel: on a cyclic \<open>newObj\<close> the source recurses without end.
\<close>

definition changed :: "(addr \<Rightarrow> obj) \<Rightarrow> val \<Rightarrow> val \<Rightarrow> string \<Rightarrow> error + bool" where
  "changed h oldObj newObj prop =
     (if \<not> truthy oldObj then Inr True
      else case has_prop h oldObj prop of
             Inl e \<Rightarrow> Inl e
           | Inr b \<Rightarrow> Inr (\<not> b \<or> \<not> js_is (get_prop h oldObj prop) (get_prop h newObj prop)))"

fun diff_props ::
  "nat \<Rightarrow> val \<Rightarrow> val \<Rightarrow> (string \<Rightarrow> val \<Rightarrow> val \<Rightarrow> world \<Rightarrow> world) \<Rightarrow> string \<Rightarrow> string list \<Rightarrow>
   world \<Rightarrow> error + world" where
  "diff_props n oldObj newObj notify prefix [] w = Inr w"
| "diff_props n oldObj newObj notify prefix (prop # ps) w =
     (case changed (heap w) oldObj newObj prop of
        Inl e \<Rightarrow> Inl e
      | Inr False \<Rightarrow> diff_props n oldObj newObj notify prefix ps w
      | Inr True \<Rightarrow>
          (if truthy (get_prop (heap w) newObj prop) \<and>
              typeof (heap w) (get_prop (heap w) newObj prop) = TObject
           then
             (case n of
                0 \<Rightarrow> Inl OutOfFuel
              | Suc m \<Rightarrow>
                  (case diff_props m
                          (if truthy oldObj then get_prop (heap w) oldObj prop else oldObj)
                          (get_prop (heap w) newObj prop) notify (prefix @ prop @ ''.'')
                          (keys (heap w) (get_prop (heap w) newObj prop)) w of
                     Inl e \<Rightarrow> Inl e
                   | Inr w' \<Rightarrow> diff_props n oldObj newObj notify prefix ps w'))
           else
             diff_props n oldObj newObj notify prefix ps
               (notify (prefix @ prop)
                  (if truthy oldObj then get_prop (heap w) oldObj prop else VUndefined)
                  (get_prop (heap w) newObj prop) w)))"

definition diff ::
  "nat \<Rightarrow> val \<Rightarrow> val \<Rightarrow> (string \<Rightarrow> val \<Rightarrow> val \<Rightarrow> world \<Rightarrow> world) \<Rightarrow> string \<Rightarrow> world \<Rightarrow> error + world" where
  "diff n oldObj newObj notify prefix w =
     diff_props n oldObj newObj notify prefix (keys (heap w) newObj) w"

section \<open>The property interceptor\<close>

text \<open>
  \<open>watchPojo(pojo, callback)\<close> and the body of its \<open>Object.keys(pojo).forEach\<close> over the
  keys still to visit. \<open>WeakMap.get\<close> of a primitive is undefined and \<open>WeakMap.set\<close> of a
  primitive throws a TypeError. Installing the accessors of a so far unwatched object takes
  one unit of fuel.
\<close>

fun watchPojo :: "nat \<Rightarrow> val \<Rightarrow> listener \<Rightarrow> world \<Rightarrow> error + (sub \<times> world)"
  and install :: "nat \<Rightarrow> addr \<Rightarrow> listener \<Rightarrow> string list \<Rightarrow> world \<Rightarrow> error + world" where
  "watchPojo n pojo cb w =
     (case pojo of
        VRef a \<Rightarrow>
          (case wmap w a of
             Some cbs \<Rightarrow> Inr (Sub a cb, w\<lparr>wmap := (wmap w)(a \<mapsto> cbs @ [cb])\<rparr>)
           | None \<Rightarrow>
               (case n of
                  0 \<Rightarrow> Inl OutOfFuel
                | Suc m \<Rightarrow>
                    (case install m a cb (keys (heap w) pojo) (w\<lparr>wmap := (wmap w)(a \<mapsto> [])\<rparr>) of
                       Inl e \<Rightarrow> Inl e
                     | Inr w' \<Rightarrow>
                         Inr (Sub a cb,
                              w'\<lparr>wmap := (wmap w')(a \<mapsto>
                                    (case wmap w' a of None \<Rightarrow> [] | Some cbs \<Rightarrow> cbs) @ [cb])\<rparr>))))
      | _ \<Rightarrow> Inl TypeError)"
| "install m a cb [] w = Inr w"
| "install m a cb (prop # ps) w =
     (let curVal = get_prop (heap w) (VRef a) prop in
      if truthy curVal \<and> typeof (heap w) curVal = TObject
      then
        (case watchPojo m curVal (Repath (fid w) prop cb) (w\<lparr>fid := Suc (fid w)\<rparr>) of
           Inl e \<Rightarrow> Inl e
         | Inr (nestedWatcher, w') \<Rightarrow>
             install m a cb ps (defineProperty a prop (Accessor curVal (Some nestedWatcher) cb) w'))
      else install m a cb ps (defineProperty a prop (Accessor curVal None cb) w))"

text \<open>The handle's \<open>remove\<close>: \<open>indexOf\<close>, then \<open>splice\<close> of the one index found.\<close>

fun remove :: "sub \<Rightarrow> world \<Rightarrow> world" where
  "remove (Sub a cb) w =
     (case wmap w a of
        None \<Rightarrow> w
      | Some cbs \<Rightarrow> w\<lparr>wmap := (wmap w)(a \<mapsto> remove1 cb cbs)\<rparr>)"

text \<open>The setter's local function \<open>notify\<close>, over the listener array of the object \<open>a\<close>.\<close>

definition notify :: "addr \<Rightarrow> string \<Rightarrow> val \<Rightarrow> val \<Rightarrow> world \<Rightarrow> world" where
  "notify a prop oldVal newVal w =
     fold (\<lambda>watcher. call_listener watcher prop oldVal newVal)
       (case wmap w a of None \<Rightarrow> [] | Some cbs \<Rightarrow> cbs) w"

text \<open>
  The setter of property \<open>prop\<close> of object \<open>a\<close>, whose closure holds \<open>curVal\<close>,
  \<open>nestedWatcher\<close> and \<open>cb\<close> (the argument \<open>callback\<close> of the installing call).
\<close>

definition setter ::
  "nat \<Rightarrow> addr \<Rightarrow> string \<Rightarrow> val \<Rightarrow> sub option \<Rightarrow> listener \<Rightarrow> val \<Rightarrow> world \<Rightarrow> error + world" where
  "setter n a prop curVal nestedWatcher cb newVal w =
     (if js_is newVal curVal then Inr w
      else
        let w1 = (case nestedWatcher of None \<Rightarrow> w | Some s \<Rightarrow> remove s w) in
        case (if truthy newVal \<and> typeof (heap w1) newVal = TObject
              then (case watchPojo n newVal (Repath (fid w1) prop cb) (w1\<lparr>fid := Suc (fid w1)\<rparr>) of
                      Inl e \<Rightarrow> Inl e
                    | Inr (s, w2) \<Rightarrow> Inr (Some s, w2))
              else Inr (None, w1)) of
          Inl e \<Rightarrow> Inl e
        | Inr (nestedWatcher', w2) \<Rightarrow>
            let w3 = defineProperty a prop (Accessor newVal nestedWatcher' cb) w2 in
            if truthy newVal \<and> typeof (heap w3) newVal = TObject
            then diff n curVal newVal (notify a) (prop @ ''.'') w3
            else Inr (notify a prop curVal newVal w3))"

text \<open>The assignment \<open>obj[prop] = newVal\<close> on the object at \<open>a\<close>.\<close>

definition set_prop :: "nat \<Rightarrow> addr \<Rightarrow> string \<Rightarrow> val \<Rightarrow> world \<Rightarrow> error + world" where
  "set_prop n a prop newVal w =
     (case map_of (props (heap w a)) prop of
        Some (Accessor curVal nestedWatcher cb) \<Rightarrow> setter n a prop curVal nestedWatcher cb newVal w
      | _ \<Rightarrow> Inr (defineProperty a prop (Data newVal) w))"

section \<open>The entry point\<close>

text \<open>\<open>new ChangeCollector(callback)\<close>, then \<open>watchPojo\<close> with the bound intake.\<close>

definition observePojo :: "nat \<Rightarrow> val \<Rightarrow> nat \<Rightarrow> world \<Rightarrow> error + (sub \<times> world)" where
  "observePojo n pojo cb w =
     (let s = seq w;
          w1 = w\<lparr>seq := Suc s, collectors := (collectors w)(s := \<lparr>callback = cb, oldVals = []\<rparr>)\<rparr>
      in watchPojo n pojo (OnChange (fid w1) s) (w1\<lparr>fid := Suc (fid w1)\<rparr>))"

text \<open>
  What the exported function returns: the handle of \<open>observePojo\<close>, or whatever the object's
  own \<open>observe\<close> method returns, which is outside this module.
\<close>

datatype handle = Own sub | Foreign val nat

definition observe :: "nat \<Rightarrow> val \<Rightarrow> nat \<Rightarrow> world \<Rightarrow> error + (handle \<times> world)" where
  "observe n obj cb w =
     (case obj of
        VUndefined \<Rightarrow> Inl TypeError
      | VNull \<Rightarrow> Inl TypeError
      | _ \<Rightarrow>
          if typeof (heap w) (get_prop (heap w) obj ''observe'') = TFunction
          then Inr (Foreign obj cb, w)
          else (case observePojo n obj cb w of
                  Inl e \<Rightarrow> Inl e
                | Inr (s, w') \<Rightarrow> Inr (Own s, w')))"

section \<open>Client code\<close>

text \<open>
  What a client of the module can do to it: call the exported function, call the \<open>remove\<close>
  of a handle, and assign to a property of an object. An observer callback is client code:
  \<open>prog cb oldVals\<close> is what the callback named \<open>cb\<close> does when called with \<open>oldVals\<close>.
\<close>

datatype action = Observe val nat | Unobserve sub | Assign addr string val

type_synonym prog = "nat \<Rightarrow> (string \<times> val) list \<Rightarrow> action list"

fun run_action :: "nat \<Rightarrow> action \<Rightarrow> world \<Rightarrow> error + world" where
  "run_action n (Observe obj cb) w =
     (case observe n obj cb w of Inl e \<Rightarrow> Inl e | Inr (h, w') \<Rightarrow> Inr w')"
| "run_action n (Unobserve s) w = Inr (remove s w)"
| "run_action n (Assign a prop v) w = set_prop n a prop v w"

fun run_actions :: "nat \<Rightarrow> action list \<Rightarrow> world \<Rightarrow> error + world" where
  "run_actions n [] w = Inr w"
| "run_actions n (x # xs) w =
     (case run_action n x w of Inl e \<Rightarrow> Inl e | Inr w' \<Rightarrow> run_actions n xs w')"

section \<open>Delivery\<close>

text \<open>
  The calls of observer callbacks are recorded beside the module state, in the order they
  are made: the collector's \<open>_seq\<close>, the callback and its argument.
\<close>

type_synonym trace = "(nat \<times> nat \<times> (string \<times> val) list) list"

text \<open>\<open>ChangeCollector.deliver()\<close> of the collector with \<open>_seq = s\<close>.\<close>

definition deliver :: "nat \<Rightarrow> prog \<Rightarrow> nat \<Rightarrow> world \<times> trace \<Rightarrow> error + world \<times> trace" where
  "deliver n prog s wt =
     (let w = fst wt;
          c = collectors w s;
          oldVals' = oldVals c;
          w1 = w\<lparr>collectors := (collectors w)(s := c\<lparr>oldVals := []\<rparr>)\<rparr>
      in case run_actions n (prog (callback c) oldVals') w1 of
           Inl e \<Rightarrow> Inl e
         | Inr w2 \<Rightarrow> Inr (w2, snd wt @ [(s, callback c, oldVals')]))"

text \<open>The loop \<open>for (var i = 0, l = callbacks.length; i < l; ++i) callbacks[i].deliver()\<close>.\<close>

fun deliver_each :: "nat \<Rightarrow> prog \<Rightarrow> nat list \<Rightarrow> world \<times> trace \<Rightarrow> error + world \<times> trace" where
  "deliver_each n prog [] wt = Inr wt"
| "deliver_each n prog (s # ss) wt =
     (case deliver n prog s wt of Inl e \<Rightarrow> Inl e | Inr wt' \<Rightarrow> deliver_each n prog ss wt')"

text \<open>
  \<open>deliverAllByTimeout()\<close>. Each pass of the outer loop takes one unit of fuel: callbacks
  that keep changing observed objects keep the source in the loop.
\<close>

fun deliverAllByTimeout :: "nat \<Rightarrow> prog \<Rightarrow> world \<times> trace \<Rightarrow> error + world \<times> trace" where
  "deliverAllByTimeout 0 prog wt = Inl OutOfFuel"
| "deliverAllByTimeout (Suc n) prog wt =
     (let callbacks = sort (hotChangeCollectors (fst wt));
          w1 = (fst wt)\<lparr>hotChangeCollectors := []\<rparr>
      in case deliver_each n prog callbacks (w1, snd wt) of
           Inl e \<Rightarrow> Inl e
         | Inr wt' \<Rightarrow>
             if callbacks \<noteq> [] then deliverAllByTimeout n prog wt'
             else Inr ((fst wt')\<lparr>deliverHandle := False\<rparr>, snd wt'))"

section \<open>The state at module load and test drivers\<close>

text \<open>
  \<open>var map = new WeakMap(); var seq = 0; var hotChangeCollectors = {}; var deliverHandle;\<close>
  over a heap \<open>h\<close> of client objects. No collector exists yet.
\<close>

definition init :: "(addr \<Rightarrow> obj) \<Rightarrow> world" where
  "init h =
     \<lparr>heap = h, wmap = (\<lambda>a. None), seq = 0,
      collectors = (\<lambda>s. \<lparr>callback = 0, oldVals = []\<rparr>),
      hotChangeCollectors = [], deliverHandle = False, fid = 0\<rparr>"

text \<open>The object literal \<open>{k1: v1, ..., kn: vn}\<close>.\<close>

definition literal :: "(string \<times> val) list \<Rightarrow> obj" where
  "literal kvs = \<lparr>callable = False, props = map (\<lambda>(k, v). (k, Data v)) kvs\<rparr>"

text \<open>Calling one raw listener with a sequence of \<open>(path, oldValue, newValue)\<close> triples.\<close>

fun feed :: "listener \<Rightarrow> (string \<times> val \<times> val) list \<Rightarrow> world \<Rightarrow> world" where
  "feed l [] w = w"
| "feed l ((path, oldVal, newVal) # ns) w = feed l ns (call_listener l path oldVal newVal w)"

text \<open>An observer callback that does nothing to the module or to observed objects.\<close>

definition quiet :: prog where
  "quiet cb oldVals' = []"

text \<open>
  Observer callback 12 assigns to the properties \<open>y\<close> and \<open>x\<close> of the objects at 1 and
  0; every other callback does nothing.
\<close>

definition cascade :: prog where
  "cascade cb oldVals' =
     (if cb = 12 then [Assign 1 ''y'' (VNum (Fin 5)), Assign 0 ''x'' (VNum (Fin 5))] else [])"


section \<open>Notions used in the statements\<close>





text \<open>
  The variables of the delivery side of the module: \<open>watchPojo\<close> and \<open>remove\<close> leave
  them alone.
\<close>

definition cside :: "world \<Rightarrow> nat \<times> (nat \<Rightarrow> collector) \<times> nat list \<times> bool" where
  "cside w = (seq w, collectors w, hotChangeCollectors w, deliverHandle w)"

text \<open>What a call of the observer of collector \<open>s\<close> in state \<open>w\<close> adds to the trace.\<close>

definition entry :: "world \<Rightarrow> nat \<Rightarrow> nat \<times> nat \<times> (string \<times> val) list" where
  "entry w s = (s, callback (collectors w s), oldVals (collectors w s))"

text \<open>
  The state after the collectors \<open>ss\<close> have handed over their maps, and the state after a
  drain session whose callbacks change nothing.
\<close>

definition reset :: "nat list \<Rightarrow> world \<Rightarrow> world" where
  "reset ss w =
     w\<lparr>collectors := (\<lambda>s. if s \<in> set ss then (collectors w s)\<lparr>oldVals := []\<rparr> else collectors w s)\<rparr>"

definition drained :: "world \<Rightarrow> world" where
  "drained w = (reset (hotChangeCollectors w) w)\<lparr>hotChangeCollectors := [], deliverHandle := False\<rparr>"

text \<open>
  A drain session as its documentation describes it, given by the states at the start of
  its passes: from every state but the last the entire pending set is taken and cleared and
  the collectors taken are delivered in ascending \<open>_seq\<close>, which gives the next state; the
  last state is the first whose pending set is empty. Each pass has the fuel that
  \<open>deliverAllByTimeout\<close> gives it.
\<close>

fun session :: "nat \<Rightarrow> prog \<Rightarrow> (world \<times> trace) list \<Rightarrow> bool" where
  "session k prog [] = False"
| "session 0 prog (wt # wts) = False"
| "session (Suc n) prog [wt] = (hotChangeCollectors (fst wt) = [])"
| "session (Suc n) prog (wt # wt' # wts) =
     (hotChangeCollectors (fst wt) \<noteq> [] \<and>
      deliver_each n prog (sort (hotChangeCollectors (fst wt)))
        ((fst wt)\<lparr>hotChangeCollectors := []\<rparr>, snd wt) = Inr wt' \<and>
      session n prog (wt' # wts))"

text \<open>
  Between drain sessions no collector is listed twice in the pending set, every collector
  that has recorded something is listed, and a delivery has been requested when the set is
  not empty.
\<close>

definition pending_ok :: "world \<Rightarrow> bool" where
  "pending_ok w \<longleftrightarrow>
     distinct (hotChangeCollectors w) \<and>
     (\<forall>s. oldVals (collectors w s) \<noteq> [] \<longrightarrow> s \<in> set (hotChangeCollectors w)) \<and>
     (hotChangeCollectors w \<noteq> [] \<longrightarrow> deliverHandle w)"

text \<open>
  A heap whose objects hold, in their own properties, references below \<open>N\<close> only, and the
  objects below \<open>N\<close> that are not yet in the WeakMap.
\<close>

definition bounded :: "nat \<Rightarrow> world \<Rightarrow> bool" where
  "bounded N w \<longleftrightarrow>
     (\<forall>a k b. k \<in> set (keys (heap w) (VRef a)) \<and> get_prop (heap w) (VRef a) k = VRef b \<longrightarrow> b < N)"

definition unwatched :: "nat \<Rightarrow> world \<Rightarrow> nat set" where
  "unwatched N w = {b. b < N \<and> wmap w b = None}"

section \<open>Example objects\<close>

text \<open>Three objects \<open>{x: 0}\<close>, \<open>{y: 0}\<close> and \<open>{z: 0}\<close>.\<close>

definition three :: "addr \<Rightarrow> obj" where
  "three = (\<lambda>a. literal [])
     (0 := literal [(''x'', VNum (Fin 0))],
      1 := literal [(''y'', VNum (Fin 0))],
      2 := literal [(''z'', VNum (Fin 0))])"


text \<open>The object \<open>o = {a: {b: 1}}\<close>: \<open>o\<close> at 0 and the nested object at 1.\<close>

definition nested :: "addr \<Rightarrow> obj" where
  "nested = (\<lambda>a. literal [])
     (0 := literal [(''a'', VRef 1)], 1 := literal [(''b'', VNum (Fin 1))])"

text \<open>
  Objects for the deep diff: \<open>{a: {b: 1, c: 2}}\<close> at 0 with its nested object at 1, the
  replacement \<open>{b: 1, c: 3, d: 4}\<close> at 2, and \<open>{a: 1}\<close> at 3 with the replacement
  \<open>{b: 2}\<close> for its property at 4.
\<close>

definition replaced :: "addr \<Rightarrow> obj" where
  "replaced = (\<lambda>a. literal [])
     (0 := literal [(''a'', VRef 1)],
      1 := literal [(''b'', VNum (Fin 1)), (''c'', VNum (Fin 2))],
      2 := literal [(''b'', VNum (Fin 1)), (''c'', VNum (Fin 3)), (''d'', VNum (Fin 4))],
      3 := literal [(''a'', VNum (Fin 1))],
      4 := literal [(''b'', VNum (Fin 2))])"


section \<open>Evaluation\<close>

text \<open>
  The recursive functions are unfolded on demand only; \<open>eval_defs\<close> evaluates the model on
  concrete states.
\<close>

declare watchPojo.simps [simp del] deliverAllByTimeout.simps [simp del] remove.simps [simp del]
  diff_props.simps [simp del]

lemmas eval_defs =
  watchPojo.simps deliverAllByTimeout.simps remove.simps diff_props.simps init_def
  literal_def quiet_def observe_def observePojo_def get_prop_def typeof_def truthy_def
  keys_def defineProperty_def slot_val_def set_prop_def setter_def notify_def onChange_def
  diff_def changed_def has_prop_def js_is_def num_eq_def deliver_def Let_def
  object_prototype_def
  numeral_2_eq_2 numeral_3_eq_3

section \<open>Same-value equality\<close>

lemma js_is_eq: "js_is x y = (x = y)"
proof (cases x)
  case (VNum a)
  show ?thesis
  proof (cases y)
    case (VNum b)
    show ?thesis using \<open>x = VNum a\<close> VNum
      by (cases a; cases b) (auto simp: js_is_def num_eq_def)
  qed (use VNum in \<open>auto simp: js_is_def num_eq_def\<close>)
qed (cases y; auto simp: js_is_def num_eq_def)+

lemma setter_same: "js_is newVal curVal \<Longrightarrow> setter n a prop curVal nw cb newVal w = Inr w"
  by (simp add: setter_def)

lemma setter_primitive:
  assumes "newVal \<noteq> curVal" and "\<not> (truthy newVal \<and> typeof (heap w) newVal = TObject)"
  shows "setter n a prop curVal None cb newVal w =
         Inr (notify a prop curVal newVal (defineProperty a prop (Accessor newVal None cb) w))"
proof -
  have "typeof (heap (defineProperty a prop (Accessor newVal None cb) w)) newVal = typeof (heap w) newVal"
    by (cases newVal) (auto simp: typeof_def defineProperty_def)
  with assms show ?thesis
    by (auto simp: setter_def js_is_eq Let_def)
qed

text \<open>
  C5. The setter leaves the whole state as it was, and so calls no listener, when the new
  value is same-value-equal to the shadow value. Same-value is \<open>===\<close>, except that NaN is
  equal to NaN and the two zeros differ. Writing one zero over the other stores it and calls
  \<open>notify\<close> with the old zero.
\<close>

theorem same_value_set_is_noop:
  "(map_of (props (heap w a)) p = Some (Accessor curVal nw cb) \<and> js_is newVal curVal \<longrightarrow>
      set_prop n a p newVal w = Inr w) \<and>
   js_is x y =
     (if x = VNum NaN \<or> y = VNum NaN then x = VNum NaN \<and> y = VNum NaN
      else if (x = VNum NegZero \<and> y = VNum (Fin 0)) \<or> (x = VNum (Fin 0) \<and> y = VNum NegZero)
      then False
      else strict_eq x y) \<and>
   (map_of (props (heap w a)) p = Some (Accessor (VNum (Fin 0)) None cb) \<longrightarrow>
      set_prop n a p (VNum NegZero) w =
        Inr (notify a p (VNum (Fin 0)) (VNum NegZero)
               (defineProperty a p (Accessor (VNum NegZero) None cb) w))) \<and>
   (map_of (props (heap w a)) p = Some (Accessor (VNum NegZero) None cb) \<longrightarrow>
      set_prop n a p (VNum (Fin 0)) w =
        Inr (notify a p (VNum NegZero) (VNum (Fin 0))
               (defineProperty a p (Accessor (VNum (Fin 0)) None cb) w)))"
proof (intro conjI impI)
  assume "map_of (props (heap w a)) p = Some (Accessor curVal nw cb) \<and> js_is newVal curVal"
  then show "set_prop n a p newVal w = Inr w"
    by (simp add: set_prop_def setter_same)
next
  show "js_is x y =
     (if x = VNum NaN \<or> y = VNum NaN then x = VNum NaN \<and> y = VNum NaN
      else if (x = VNum NegZero \<and> y = VNum (Fin 0)) \<or> (x = VNum (Fin 0) \<and> y = VNum NegZero)
      then False
      else strict_eq x y)"
    unfolding js_is_eq by (cases x; cases y) (auto simp: num_eq_def)
next
  assume "map_of (props (heap w a)) p = Some (Accessor (VNum (Fin 0)) None cb)"
  then show "set_prop n a p (VNum NegZero) w =
        Inr (notify a p (VNum (Fin 0)) (VNum NegZero)
               (defineProperty a p (Accessor (VNum NegZero) None cb) w))"
    by (simp add: set_prop_def setter_primitive truthy_def)
next
  assume "map_of (props (heap w a)) p = Some (Accessor (VNum NegZero) None cb)"
  then show "set_prop n a p (VNum (Fin 0)) w =
        Inr (notify a p (VNum NegZero) (VNum (Fin 0))
               (defineProperty a p (Accessor (VNum (Fin 0)) None cb) w))"
    by (simp add: set_prop_def setter_primitive truthy_def)
qed

text \<open>
  An observed object \<open>{z: 0, q: NaN}\<close>: writing NaN over NaN changes nothing, writing
  \<open>-0\<close> over \<open>0\<close> makes the observer's collector record \<open>z\<close> with the old zero, and
  writing \<open>0\<close> back notifies again.
\<close>

theorem same_value_set_is_noop_witness:
  "\<exists>w. run_actions 1 [Observe (VRef 0) 7]
          (init ((\<lambda>a. literal [])(0 := literal [(''z'', VNum (Fin 0)), (''q'', VNum NaN)]))) = Inr w \<and>
        js_is (VNum NaN) (VNum NaN) \<and>
        set_prop 1 0 ''q'' (VNum NaN) w = Inr w \<and>
        \<not> js_is (VNum NegZero) (VNum (Fin 0)) \<and>
        (\<exists>w'. set_prop 1 0 ''z'' (VNum NegZero) w = Inr w' \<and>
               oldVals (collectors w' 0) = [(''z'', VNum (Fin 0))] \<and>
               hotChangeCollectors w' = [0] \<and>
               set_prop 1 0 ''z'' (VNum (Fin 0)) w' =
                 Inr (notify 0 ''z'' (VNum NegZero) (VNum (Fin 0))
                        (defineProperty 0 ''z'' (Accessor (VNum (Fin 0)) None (OnChange 0 0)) w')))"
proof -
  have "\<exists>w w'. (run_actions 1 [Observe (VRef 0) 7]
          (init ((\<lambda>a. literal [])(0 := literal [(''z'', VNum (Fin 0)), (''q'', VNum NaN)]))) = Inr w \<and>
        map_of (props (heap w 0)) ''q'' = Some (Accessor (VNum NaN) None (OnChange 0 0)) \<and>
        map_of (props (heap w 0)) ''z'' = Some (Accessor (VNum (Fin 0)) None (OnChange 0 0))) \<and>
        (notify 0 ''z'' (VNum (Fin 0)) (VNum NegZero)
           (defineProperty 0 ''z'' (Accessor (VNum NegZero) None (OnChange 0 0)) w) = w' \<and>
         map_of (props (heap w' 0)) ''z'' = Some (Accessor (VNum NegZero) None (OnChange 0 0)) \<and>
         oldVals (collectors w' 0) = [(''z'', VNum (Fin 0))] \<and>
         hotChangeCollectors w' = [0])"
    by (simp add: eval_defs)
  then obtain w w' where run: "run_actions 1 [Observe (VRef 0) 7]
          (init ((\<lambda>a. literal [])(0 := literal [(''z'', VNum (Fin 0)), (''q'', VNum NaN)]))) = Inr w"
    and q: "map_of (props (heap w 0)) ''q'' = Some (Accessor (VNum NaN) None (OnChange 0 0))"
    and z: "map_of (props (heap w 0)) ''z'' = Some (Accessor (VNum (Fin 0)) None (OnChange 0 0))"
    and w': "notify 0 ''z'' (VNum (Fin 0)) (VNum NegZero)
           (defineProperty 0 ''z'' (Accessor (VNum NegZero) None (OnChange 0 0)) w) = w'"
    and z': "map_of (props (heap w' 0)) ''z'' = Some (Accessor (VNum NegZero) None (OnChange 0 0))"
    and c: "oldVals (collectors w' 0) = [(''z'', VNum (Fin 0))]" "hotChangeCollectors w' = [0]"
    by blast
  note tq = same_value_set_is_noop [where w = w and a = 0 and p = "''q''"
      and curVal = "VNum NaN" and nw = None and cb = "OnChange 0 0" and newVal = "VNum NaN"
      and n = 1 and x = "VNum NaN" and y = "VNum NaN"]
  note tz = same_value_set_is_noop [where w = w and a = 0 and p = "''z''"
      and cb = "OnChange 0 0" and n = 1 and x = "VNum NegZero" and y = "VNum (Fin 0)"]
  note tb = same_value_set_is_noop [where w = w' and a = 0 and p = "''z''"
      and cb = "OnChange 0 0" and n = 1]
  have nan: "js_is (VNum NaN) (VNum NaN)" using tq by simp
  have 1: "set_prop 1 0 ''q'' (VNum NaN) w = Inr w" using tq q nan by simp
  have 2: "\<not> js_is (VNum NegZero) (VNum (Fin 0))" using tz by simp
  have 3: "set_prop 1 0 ''z'' (VNum NegZero) w = Inr w'" using tz z w' by simp
  have 4: "set_prop 1 0 ''z'' (VNum (Fin 0)) w' =
        Inr (notify 0 ''z'' (VNum NegZero) (VNum (Fin 0))
               (defineProperty 0 ''z'' (Accessor (VNum (Fin 0)) None (OnChange 0 0)) w'))"
    using tb z' by simp
  from run nan 1 2 3 4 c show ?thesis by blast
qed

section \<open>The intake of a collector\<close>

lemma call_listener_newVal: "call_listener l p ov nv1 w = call_listener l p ov nv2 w"
  by (induction l arbitrary: p) simp_all

lemma feed_newVal:
  "map (\<lambda>(p, ov, nv). (p, ov)) ns1 = map (\<lambda>(p, ov, nv). (p, ov)) ns2 \<Longrightarrow> feed l ns1 w = feed l ns2 w"
proof (induction ns1 arbitrary: ns2 w)
  case Nil
  then show ?case by simp
next
  case (Cons x ns1)
  then obtain y ns2' where ns2: "ns2 = y # ns2'" by (cases ns2) auto
  obtain p ov nv1 where x: "x = (p, ov, nv1)" by (cases x)
  obtain p' ov' nv2 where y: "y = (p', ov', nv2)" by (cases y)
  from Cons.prems ns2 x y have eq: "p' = p" "ov' = ov"
    and rest: "map (\<lambda>(p, ov, nv). (p, ov)) ns1 = map (\<lambda>(p, ov, nv). (p, ov)) ns2'"
    by auto
  have "call_listener l p ov nv1 w = call_listener l p ov nv2 w"
    by (rule call_listener_newVal)
  with Cons.IH [OF rest] show ?case
    by (simp add: ns2 x y eq)
qed

text \<open>
  C10. The intake does not look at the new value: two sequences of notifications with the
  same paths and old values, whatever their new values, leave the same state, and the
  delivery that follows calls the observer with the same summary.
\<close>

theorem intake_ignores_newVal:
  "map (\<lambda>(p, ov, nv). (p, ov)) ns1 = map (\<lambda>(p, ov, nv). (p, ov)) ns2 \<Longrightarrow>
   feed (OnChange f s) ns1 w = feed (OnChange f s) ns2 w \<and>
   deliver n prog s (feed (OnChange f s) ns1 w, tr) = deliver n prog s (feed (OnChange f s) ns2 w, tr)"
  by (simp add: feed_newVal [of ns1 ns2])

theorem intake_ignores_newVal_witness:
  "map (\<lambda>(p, ov, nv). (p, ov)) [(''a'', VNum (Fin 1), VNum (Fin 2)), (''a'', VNum (Fin 2), VNum (Fin 3))] =
   map (\<lambda>(p, ov, nv). (p, ov)) [(''a'', VNum (Fin 1), VStr ''x''), (''a'', VNum (Fin 2), VNull)] \<and>
   deliver 0 quiet 0
     (feed (OnChange 0 0) [(''a'', VNum (Fin 1), VNum (Fin 2)), (''a'', VNum (Fin 2), VNum (Fin 3))]
        (init (\<lambda>a. literal [])), []) =
   deliver 0 quiet 0
     (feed (OnChange 0 0) [(''a'', VNum (Fin 1), VStr ''x''), (''a'', VNum (Fin 2), VNull)]
        (init (\<lambda>a. literal [])), []) \<and>
   map_sum id snd (deliver 0 quiet 0
     (feed (OnChange 0 0) [(''a'', VNum (Fin 1), VStr ''x''), (''a'', VNum (Fin 2), VNull)]
        (init (\<lambda>a. literal [])), [])) = Inr [(0, 0, [(''a'', VNum (Fin 1))])]"
proof -
  have eq: "map (\<lambda>(p, ov, nv). (p, ov)) [(''a'', VNum (Fin 1), VNum (Fin 2)), (''a'', VNum (Fin 2), VNum (Fin 3))] =
   map (\<lambda>(p, ov, nv). (p, ov)) [(''a'', VNum (Fin 1), VStr ''x''), (''a'', VNum (Fin 2), VNull)]"
    by simp
  have "map_sum id snd (deliver 0 quiet 0
     (feed (OnChange 0 0) [(''a'', VNum (Fin 1), VStr ''x''), (''a'', VNum (Fin 2), VNull)]
        (init (\<lambda>a. literal [])), [])) = Inr [(0, 0, [(''a'', VNum (Fin 1))])]"
    by (simp add: eval_defs)
  with eq intake_ignores_newVal [OF eq, of 0 0 "init (\<lambda>a. literal [])" 0 quiet "[]"]
  show ?thesis by blast
qed

section \<open>Watches that return\<close>

lemma watchPojo_cases [consumes 1, case_names known unseen]:
  assumes "watchPojo n pojo cb w = Inr (s, w')"
  obtains a cbs where "pojo = VRef a" "wmap w a = Some cbs" "s = Sub a cb"
      "w' = w\<lparr>wmap := (wmap w)(a \<mapsto> cbs @ [cb])\<rparr>"
  | a m w1 where "pojo = VRef a" "wmap w a = None" "n = Suc m"
      "install m a cb (keys (heap w) pojo) (w\<lparr>wmap := (wmap w)(a \<mapsto> [])\<rparr>) = Inr w1"
      "s = Sub a cb"
      "w' = w1\<lparr>wmap := (wmap w1)(a \<mapsto> (case wmap w1 a of None \<Rightarrow> [] | Some cbs \<Rightarrow> cbs) @ [cb])\<rparr>"
  using assms
  by (auto simp: watchPojo.simps [of n pojo cb w]
      split: val.splits option.splits nat.splits sum.splits)

lemma install_Cons_cases [consumes 1, case_names nested plain]:
  assumes "install m a cb (prop # ps) w = Inr w'"
  obtains nw w1 where
      "truthy (get_prop (heap w) (VRef a) prop) \<and> typeof (heap w) (get_prop (heap w) (VRef a) prop) = TObject"
      "watchPojo m (get_prop (heap w) (VRef a) prop) (Repath (fid w) prop cb) (w\<lparr>fid := Suc (fid w)\<rparr>) = Inr (nw, w1)"
      "install m a cb ps (defineProperty a prop (Accessor (get_prop (heap w) (VRef a) prop) (Some nw) cb) w1) = Inr w'"
  | "\<not> (truthy (get_prop (heap w) (VRef a) prop) \<and> typeof (heap w) (get_prop (heap w) (VRef a) prop) = TObject)"
      "install m a cb ps (defineProperty a prop (Accessor (get_prop (heap w) (VRef a) prop) None cb) w) = Inr w'"
  using assms
  by (auto simp: Let_def split: sum.splits if_splits)

lemma watch_induct_aux:
  assumes known: "\<And>n a cb w cbs. wmap w a = Some cbs \<Longrightarrow>
      P n (VRef a) cb w (Sub a cb) (w\<lparr>wmap := (wmap w)(a \<mapsto> cbs @ [cb])\<rparr>)"
    and unseen: "\<And>m a cb w w1. wmap w a = None \<Longrightarrow>
      install m a cb (keys (heap w) (VRef a)) (w\<lparr>wmap := (wmap w)(a \<mapsto> [])\<rparr>) = Inr w1 \<Longrightarrow>
      Q m a cb (keys (heap w) (VRef a)) (w\<lparr>wmap := (wmap w)(a \<mapsto> [])\<rparr>) w1 \<Longrightarrow>
      P (Suc m) (VRef a) cb w (Sub a cb)
        (w1\<lparr>wmap := (wmap w1)(a \<mapsto> (case wmap w1 a of None \<Rightarrow> [] | Some cbs \<Rightarrow> cbs) @ [cb])\<rparr>)"
    and nil: "\<And>m a cb w. Q m a cb [] w w"
    and nested: "\<And>m a cb p ps w nw w1 w'.
      truthy (get_prop (heap w) (VRef a) p) \<and> typeof (heap w) (get_prop (heap w) (VRef a) p) = TObject \<Longrightarrow>
      watchPojo m (get_prop (heap w) (VRef a) p) (Repath (fid w) p cb) (w\<lparr>fid := Suc (fid w)\<rparr>) = Inr (nw, w1) \<Longrightarrow>
      P m (get_prop (heap w) (VRef a) p) (Repath (fid w) p cb) (w\<lparr>fid := Suc (fid w)\<rparr>) nw w1 \<Longrightarrow>
      install m a cb ps (defineProperty a p (Accessor (get_prop (heap w) (VRef a) p) (Some nw) cb) w1) = Inr w' \<Longrightarrow>
      Q m a cb ps (defineProperty a p (Accessor (get_prop (heap w) (VRef a) p) (Some nw) cb) w1) w' \<Longrightarrow>
      Q m a cb (p # ps) w w'"
    and plain: "\<And>m a cb p ps w w'.
      \<not> (truthy (get_prop (heap w) (VRef a) p) \<and> typeof (heap w) (get_prop (heap w) (VRef a) p) = TObject) \<Longrightarrow>
      install m a cb ps (defineProperty a p (Accessor (get_prop (heap w) (VRef a) p) None cb) w) = Inr w' \<Longrightarrow>
      Q m a cb ps (defineProperty a p (Accessor (get_prop (heap w) (VRef a) p) None cb) w) w' \<Longrightarrow>
      Q m a cb (p # ps) w w'"
  shows "watchPojo n pojo cb w = Inr (s, w') \<Longrightarrow> P n pojo cb w s w'"
    and "install m a cb' ps w0 = Inr w0' \<Longrightarrow> Q m a cb' ps w0 w0'"
proof (induction n pojo cb w and m a cb' ps w0 arbitrary: s w' and w0' rule: watchPojo_install.induct)
  case (1 n pojo cb w)
  from "1.prems" show ?case
  proof (cases rule: watchPojo_cases)
    case (known a cbs)
    then show ?thesis using assms(1) by simp
  next
    case (unseen a m w1)
    from "1.IH" [OF unseen(1-4)] unseen assms(2) [of w a m cb w1] show ?thesis by simp
  qed
next
  case (2 m a cb w)
  then show ?case using nil by simp
next
  case (3 m a cb p ps w)
  from "3.prems" show ?case
  proof (cases rule: install_Cons_cases)
    case (nested nw w1)
    from "3.IH"(1) [OF refl nested(1,2)]
    have 1: "P m (get_prop (heap w) (VRef a) p) (Repath (fid w) p cb) (w\<lparr>fid := Suc (fid w)\<rparr>) nw w1" .
    from "3.IH"(2) [OF refl nested(1) nested(2) refl nested(3)]
    have 2: "Q m a cb ps (defineProperty a p (Accessor (get_prop (heap w) (VRef a) p) (Some nw) cb) w1) w0'" .
    from assms(4) [OF nested(1,2) 1 nested(3) 2] show ?thesis .
  next
    case plain
    from "3.IH"(3) [OF refl plain] assms(5) [OF plain] show ?thesis by simp
  qed
qed

lemmas watchPojo_induct =
  watch_induct_aux(1) [rotated 5, consumes 1, case_names known unseen nil nested plain]

lemmas install_induct =
  watch_induct_aux(2) [rotated 5, consumes 1, case_names known unseen nil nested plain]

lemma cside_upd [simp]:
  "cside (w\<lparr>wmap := m\<rparr>) = cside w"
  "cside (w\<lparr>fid := f\<rparr>) = cside w"
  "cside (w\<lparr>heap := h\<rparr>) = cside w"
  "cside (defineProperty a prop sl w) = cside w"
  by (simp_all add: cside_def defineProperty_def)

lemma watch_cside:
  assumes "watchPojo n pojo cb w = Inr (s, w')"
  shows "cside w' = cside w"
  using assms
  by (induction rule: watchPojo_induct [where Q = "\<lambda>m a cb ps w w'. cside w' = cside w"]) simp_all

lemma install_cside:
  assumes "install m a cb ps w = Inr w'"
  shows "cside w' = cside w"
  using assms
  by (induction rule: install_induct [where P = "\<lambda>n pojo cb w s w'. cside w' = cside w"]) simp_all

text \<open>Objects that are already in the WeakMap stay there, and their properties are not touched.\<close>

lemma heap_defineProperty [simp]:
  "heap (defineProperty a p sl w) b = (if b = a then (heap w a)\<lparr>props := put p sl (props (heap w a))\<rparr> else heap w b)"
  "wmap (defineProperty a p sl w) = wmap w"
  "fid (defineProperty a p sl w) = fid w"
  by (simp_all add: defineProperty_def)

lemma watch_frame:
  assumes "watchPojo n pojo cb w = Inr (s, w')"
  shows "\<forall>b. wmap w b \<noteq> None \<longrightarrow> wmap w' b \<noteq> None \<and> heap w' b = heap w b"
  using assms
  by (induction rule: watchPojo_induct [where Q = "\<lambda>m a cb ps w w'.
        \<forall>b. wmap w b \<noteq> None \<longrightarrow> wmap w' b \<noteq> None \<and> (b \<noteq> a \<longrightarrow> heap w' b = heap w b)"])
     (auto split: if_splits)

lemma install_frame:
  assumes "install m a cb ps w = Inr w'"
  shows "\<forall>b. wmap w b \<noteq> None \<longrightarrow> wmap w' b \<noteq> None \<and> (b \<noteq> a \<longrightarrow> heap w' b = heap w b)"
  using assms
  by (induction rule: install_induct [where P = "\<lambda>n pojo cb w s w'.
        \<forall>b. wmap w b \<noteq> None \<longrightarrow> wmap w' b \<noteq> None \<and> heap w' b = heap w b"])
     (auto split: if_splits)

lemma watch_registers:
  assumes "watchPojo n (VRef a) cb w = Inr (s, w')"
  shows "wmap w' a \<noteq> None"
  using assms by (cases rule: watchPojo_cases) auto

lemma map_of_put: "map_of (put k sl ps) k' = (if k' = k then Some sl else map_of ps k')"
  by (induction ps) auto

lemma install_accessors:
  assumes "install m a cb ps w = Inr w'"
  shows "wmap w a \<noteq> None \<longrightarrow>
         (\<forall>k. (k \<in> set ps \<longrightarrow>
                 (\<exists>nw. map_of (props (heap w' a)) k =
                         Some (Accessor (get_prop (heap w) (VRef a) k) nw cb))) \<and>
              (k \<notin> set ps \<longrightarrow> map_of (props (heap w' a)) k = map_of (props (heap w a)) k))"
  using assms
proof (induction rule: install_induct [where P = "\<lambda>n pojo cb w s w'. True"])
  case (nested m a cb p ps w nw w1 w')
  show ?case
  proof (intro impI)
    assume reg: "wmap w a \<noteq> None"
    let ?v = "get_prop (heap w) (VRef a) p"
    let ?w2 = "defineProperty a p (Accessor ?v (Some nw) cb) w1"
    from watch_frame [OF nested(2)] reg have same: "heap w1 a = heap w a" and reg1: "wmap w1 a \<noteq> None"
      by auto
    have get2: "get_prop (heap ?w2) (VRef a) k = get_prop (heap w) (VRef a) k" for k
      using same by (auto simp: get_prop_def map_of_put slot_val_def)
    have map2: "map_of (props (heap ?w2 a)) k =
        (if k = p then Some (Accessor ?v (Some nw) cb) else map_of (props (heap w a)) k)" for k
      using same by (simp add: map_of_put)
    have reg2: "wmap ?w2 a \<noteq> None" using reg1 by simp
    from nested(5) reg2 have ih: "\<forall>k. (k \<in> set ps \<longrightarrow>
                 (\<exists>nw'. map_of (props (heap w' a)) k =
                         Some (Accessor (get_prop (heap ?w2) (VRef a) k) nw' cb))) \<and>
              (k \<notin> set ps \<longrightarrow> map_of (props (heap w' a)) k = map_of (props (heap ?w2 a)) k)"
      by (rule mp)
    show "\<forall>k. (k \<in> set (p # ps) \<longrightarrow>
                 (\<exists>nw. map_of (props (heap w' a)) k =
                         Some (Accessor (get_prop (heap w) (VRef a) k) nw cb))) \<and>
              (k \<notin> set (p # ps) \<longrightarrow> map_of (props (heap w' a)) k = map_of (props (heap w a)) k)"
      using ih unfolding get2 map2 by (metis list.set_intros(1) set_ConsD list.set_intros(2))
  qed
next
  case (plain m a cb p ps w w')
  show ?case
  proof (intro impI)
    assume reg: "wmap w a \<noteq> None"
    let ?v = "get_prop (heap w) (VRef a) p"
    let ?w2 = "defineProperty a p (Accessor ?v None cb) w"
    have get2: "get_prop (heap ?w2) (VRef a) k = get_prop (heap w) (VRef a) k" for k
      by (auto simp: get_prop_def map_of_put slot_val_def)
    have map2: "map_of (props (heap ?w2 a)) k =
        (if k = p then Some (Accessor ?v None cb) else map_of (props (heap w a)) k)" for k
      by (simp add: map_of_put)
    have reg2: "wmap ?w2 a \<noteq> None" using reg by simp
    from plain(3) reg2 have ih: "\<forall>k. (k \<in> set ps \<longrightarrow>
                 (\<exists>nw'. map_of (props (heap w' a)) k =
                         Some (Accessor (get_prop (heap ?w2) (VRef a) k) nw' cb))) \<and>
              (k \<notin> set ps \<longrightarrow> map_of (props (heap w' a)) k = map_of (props (heap ?w2 a)) k)"
      by (rule mp)
    show "\<forall>k. (k \<in> set (p # ps) \<longrightarrow>
                 (\<exists>nw. map_of (props (heap w' a)) k =
                         Some (Accessor (get_prop (heap w) (VRef a) k) nw cb))) \<and>
              (k \<notin> set (p # ps) \<longrightarrow> map_of (props (heap w' a)) k = map_of (props (heap w a)) k)"
      using ih unfolding get2 map2 by (metis list.set_intros(1) set_ConsD list.set_intros(2))
  qed
qed simp_all

lemma watch_first:
  assumes run: "watchPojo n (VRef a) cb w = Inr (s, w')" and new: "wmap w a = None"
  shows "\<forall>k \<in> set (keys (heap w) (VRef a)).
           \<exists>nw. map_of (props (heap w' a)) k = Some (Accessor (get_prop (heap w) (VRef a) k) nw cb)"
  using run
proof (cases rule: watchPojo_cases)
  case (known b cbs)
  with new show ?thesis by simp
next
  case (unseen b m w1)
  then have b: "b = a" by simp
  from install_accessors [OF unseen(4)] b
  have "\<forall>k \<in> set (keys (heap w) (VRef a)).
           \<exists>nw. map_of (props (heap w1 a)) k = Some (Accessor (get_prop (heap w) (VRef a) k) nw cb)"
    by (simp add: get_prop_def)
  with unseen(6) show ?thesis by simp
qed

subsection \<open>Interception is transparent\<close>

text \<open>Every property of every object keeps its value.\<close>

lemma get_prop_put:
  "get_prop (heap (defineProperty a p sl w)) v k =
     (if v = VRef a \<and> k = p then slot_val sl else get_prop (heap w) v k)"
  by (cases v) (auto simp: get_prop_def map_of_put)

lemma watch_values:
  assumes "watchPojo n pojo cb w = Inr (s, w')"
  shows "get_prop (heap w') v k = get_prop (heap w) v k"
  using assms
  by (induction rule: watchPojo_induct
        [where Q = "\<lambda>m a cb ps w w'. get_prop (heap w') v k = get_prop (heap w) v k"])
     (auto simp: get_prop_put slot_val_def simp del: heap_defineProperty(1))

lemma install_values:
  assumes "install m a cb ps w = Inr w'"
  shows "get_prop (heap w') v k = get_prop (heap w) v k"
  using assms
  by (induction rule: install_induct
        [where P = "\<lambda>n pojo cb w s w'. get_prop (heap w') v k = get_prop (heap w) v k"])
     (auto simp: get_prop_put slot_val_def simp del: heap_defineProperty(1))

lemma object_is_ref:
  "truthy v \<and> typeof h v = TObject \<Longrightarrow> \<exists>b. v = VRef b"
  by (cases v) (simp_all add: truthy_def typeof_def)

lemma unwatched_mono:
  assumes "watchPojo n pojo cb w = Inr (s, w')"
  shows "unwatched N w' \<subseteq> unwatched N w"
  using watch_frame [OF assms] by (auto simp: unwatched_def)

lemma keys_put: "k \<in> set (map fst ps) \<Longrightarrow> map fst (put k sl ps) = map fst ps"
  by (induction ps) force+

lemma keys_defineProperty:
  "p \<in> set (keys (heap w) (VRef a)) \<Longrightarrow> keys (heap (defineProperty a p sl w)) v = keys (heap w) v"
  by (cases v) (simp_all add: keys_def keys_put)

lemma watch_keys:
  assumes "watchPojo n pojo cb w = Inr (s, w')"
  shows "\<forall>v. keys (heap w') v = keys (heap w) v"
  using assms
proof (induction rule: watchPojo_induct
        [where Q = "\<lambda>m a cb ps w w'. set ps \<subseteq> set (keys (heap w) (VRef a)) \<longrightarrow>
                      (\<forall>v. keys (heap w') v = keys (heap w) v)"])
  case (known n a cb w cbs)
  then show ?case by (simp add: keys_def)
next
  case (unseen m a cb w w1)
  then show ?case by (simp add: keys_def)
next
  case (nil m a cb w)
  then show ?case by simp
next
  case (nested m a cb p ps w nw w1 w')
  let ?w2 = "defineProperty a p (Accessor (get_prop (heap w) (VRef a) p) (Some nw) cb) w1"
  have k1: "keys (heap w1) v = keys (heap w) v" for v
    using nested(5) by (simp add: keys_def)
  show ?case
  proof (intro impI allI)
    fix v
    assume sub: "set (p # ps) \<subseteq> set (keys (heap w) (VRef a))"
    then have p: "p \<in> set (keys (heap w1) (VRef a))" by (simp add: k1)
    have k2: "keys (heap ?w2) v = keys (heap w) v" for v
      using keys_defineProperty [OF p] k1 by simp
    from sub have "set ps \<subseteq> set (keys (heap ?w2) (VRef a))" by (simp add: k2)
    with nested(4) have "keys (heap w') v = keys (heap ?w2) v" by blast
    then show "keys (heap w') v = keys (heap w) v" by (simp add: k2)
  qed
next
  case (plain m a cb p ps w w')
  let ?w2 = "defineProperty a p (Accessor (get_prop (heap w) (VRef a) p) None cb) w"
  show ?case
  proof (intro impI allI)
    fix v
    assume sub: "set (p # ps) \<subseteq> set (keys (heap w) (VRef a))"
    then have p: "p \<in> set (keys (heap w) (VRef a))" by simp
    have k2: "keys (heap ?w2) v = keys (heap w) v" for v
      using keys_defineProperty [OF p] by simp
    from sub have "set ps \<subseteq> set (keys (heap ?w2) (VRef a))" by (simp add: k2)
    with plain(3) have "keys (heap w') v = keys (heap ?w2) v" by blast
    then show "keys (heap w') v = keys (heap w) v" by (simp add: k2)
  qed
qed

lemma bounded_watch:
  assumes "watchPojo n pojo cb w = Inr (s, w')" and "bounded N w"
  shows "bounded N w'"
  using assms(2) by (simp add: bounded_def watch_values [OF assms(1)] watch_keys [OF assms(1)])

lemma bounded_defineProperty:
  assumes "bounded N w" and "p \<in> set (keys (heap w) (VRef a))"
    and "\<forall>b. slot_val sl = VRef b \<longrightarrow> b < N"
  shows "bounded N (defineProperty a p sl w)"
  using assms
  by (auto simp: bounded_def get_prop_put keys_defineProperty simp del: heap_defineProperty(1))

lemma install_total:
  assumes watch: "\<And>b cb w. bounded N w \<Longrightarrow> b < N \<Longrightarrow> card (unwatched N w) \<le> m \<Longrightarrow>
            \<exists>s w'. watchPojo m (VRef b) cb w = Inr (s, w')"
  shows "bounded N w \<Longrightarrow> card (unwatched N w) \<le> m \<Longrightarrow> set ps \<subseteq> set (keys (heap w) (VRef a)) \<Longrightarrow>
         \<exists>w'. install m a cb ps w = Inr w'"
proof (induction ps arbitrary: w)
  case Nil
  then show ?case by simp
next
  case (Cons p ps)
  let ?v = "get_prop (heap w) (VRef a) p"
  have fin: "finite (unwatched N w)" by (simp add: unwatched_def)
  from Cons.prems(3) have own: "p \<in> set (keys (heap w) (VRef a))" by simp
  with Cons.prems(1) have low: "\<forall>b. ?v = VRef b \<longrightarrow> b < N" by (auto simp: bounded_def)
  show ?case
  proof (cases "truthy ?v \<and> typeof (heap w) ?v = TObject")
    case True
    then obtain b where b: "?v = VRef b" using object_is_ref by blast
    with low have "b < N" by simp
    moreover have b0: "bounded N (w\<lparr>fid := Suc (fid w)\<rparr>)" using Cons.prems(1) by (simp add: bounded_def)
    moreover have "card (unwatched N (w\<lparr>fid := Suc (fid w)\<rparr>)) \<le> m"
      using Cons.prems(2) by (simp add: unwatched_def)
    ultimately obtain nw w1 where
      r: "watchPojo m (VRef b) (Repath (fid w) p cb) (w\<lparr>fid := Suc (fid w)\<rparr>) = Inr (nw, w1)"
      using watch by blast
    let ?w2 = "defineProperty a p (Accessor ?v (Some nw) cb) w1"
    have b1: "bounded N w1" by (rule bounded_watch [OF r b0])
    have k1: "keys (heap w1) v = keys (heap w) v" for v
      using watch_keys [OF r] by (simp add: keys_def)
    from own have own1: "p \<in> set (keys (heap w1) (VRef a))" by (simp add: k1)
    have b2: "bounded N ?w2"
      using low by (intro bounded_defineProperty [OF b1 own1]) (simp add: slot_val_def)
    have "unwatched N ?w2 \<subseteq> unwatched N w"
      using unwatched_mono [OF r, of N] by (auto simp: unwatched_def)
    with fin Cons.prems(2) have c2: "card (unwatched N ?w2) \<le> m"
      by (meson card_mono le_trans)
    have "set ps \<subseteq> set (keys (heap ?w2) (VRef a))"
      using Cons.prems(3) by (simp add: keys_defineProperty [OF own1] k1)
    from Cons.IH [OF b2 c2 this] True r b show ?thesis
      by (auto simp: Let_def)
  next
    case False
    let ?w2 = "defineProperty a p (Accessor ?v None cb) w"
    have b2: "bounded N ?w2"
      using low by (intro bounded_defineProperty [OF Cons.prems(1) own]) (simp add: slot_val_def)
    have c2: "card (unwatched N ?w2) \<le> m" using Cons.prems(2) by (simp add: unwatched_def)
    have "set ps \<subseteq> set (keys (heap ?w2) (VRef a))"
      using Cons.prems(3) by (simp add: keys_defineProperty [OF own])
    from Cons.IH [OF b2 c2 this] False show ?thesis
      by (auto simp: Let_def)
  qed
qed

lemma watchPojo_total:
  "bounded N w \<Longrightarrow> a < N \<Longrightarrow> card (unwatched N w) \<le> n \<Longrightarrow>
   \<exists>s w'. watchPojo n (VRef a) cb w = Inr (s, w')"
proof (induction n arbitrary: a cb w)
  case 0
  then have "unwatched N w = {}" by (simp add: unwatched_def)
  with 0 obtain cbs where "wmap w a = Some cbs" by (auto simp: unwatched_def)
  then show ?case by (simp add: watchPojo.simps)
next
  case (Suc n)
  show ?case
  proof (cases "wmap w a")
    case (Some cbs)
    then show ?thesis by (simp add: watchPojo.simps)
  next
    case None
    let ?w0 = "w\<lparr>wmap := (wmap w)(a \<mapsto> [])\<rparr>"
    have fin: "finite (unwatched N w)" by (simp add: unwatched_def)
    have "unwatched N ?w0 = unwatched N w - {a}" by (auto simp: unwatched_def)
    moreover have "a \<in> unwatched N w" using None Suc.prems(2) by (simp add: unwatched_def)
    ultimately have c: "card (unwatched N ?w0) \<le> n"
      using Suc.prems(3) fin by simp
    have b: "bounded N ?w0" using Suc.prems(1) by (simp add: bounded_def)
    have k: "set (keys (heap w) (VRef a)) \<subseteq> set (keys (heap ?w0) (VRef a))" by simp
    from install_total [of N n ?w0 "keys (heap w) (VRef a)" a cb, OF Suc.IH b c k]
    obtain w1 where "install n a cb (keys (heap w) (VRef a)) ?w0 = Inr w1" by blast
    with None show ?thesis by (simp add: watchPojo.simps)
  qed
qed

text \<open>
  C7. Watching an object that is already in the WeakMap only appends the listener to its
  listener array: no property is read, no accessor is defined, no closure is created and no
  fuel is used. Every watch that returns leaves the object in the WeakMap, so the accessors
  are installed by the first watch alone; that watch turns every enumerable key into an
  accessor whose shadow value is the value the property had, and no property of any object
  reads differently afterwards. On a heap whose references all point below \<open>N\<close> a watch
  returns when its fuel covers the objects below \<open>N\<close> that are not yet in the WeakMap.
\<close>

theorem accessors_installed_once:
  "(wmap w a = Some cbs \<longrightarrow>
      watchPojo n (VRef a) cb w = Inr (Sub a cb, w\<lparr>wmap := (wmap w)(a \<mapsto> cbs @ [cb])\<rparr>)) \<and>
   (watchPojo n (VRef a) cb w = Inr (s, w') \<longrightarrow>
      wmap w' a \<noteq> None \<and>
      (\<forall>v k. get_prop (heap w') v k = get_prop (heap w) v k) \<and>
      (wmap w a = None \<longrightarrow>
         (\<forall>k \<in> set (keys (heap w) (VRef a)).
            \<exists>nw. map_of (props (heap w' a)) k =
                  Some (Accessor (get_prop (heap w) (VRef a) k) nw cb)))) \<and>
   (bounded N w \<and> a < N \<and> card (unwatched N w) \<le> n \<longrightarrow>
      (\<exists>s w'. watchPojo n (VRef a) cb w = Inr (s, w')))"
proof (intro conjI impI allI)
  assume "wmap w a = Some cbs"
  then show "watchPojo n (VRef a) cb w = Inr (Sub a cb, w\<lparr>wmap := (wmap w)(a \<mapsto> cbs @ [cb])\<rparr>)"
    by (simp add: watchPojo.simps [of n "VRef a" cb w])
next
  assume "watchPojo n (VRef a) cb w = Inr (s, w')"
  then show "wmap w' a \<noteq> None" by (rule watch_registers)
next
  fix v k
  assume "watchPojo n (VRef a) cb w = Inr (s, w')"
  then show "get_prop (heap w') v k = get_prop (heap w) v k" by (rule watch_values)
next
  assume "watchPojo n (VRef a) cb w = Inr (s, w')" and "wmap w a = None"
  then show "\<forall>k \<in> set (keys (heap w) (VRef a)).
            \<exists>nw. map_of (props (heap w' a)) k =
                  Some (Accessor (get_prop (heap w) (VRef a) k) nw cb)"
    by (rule watch_first)
next
  assume "bounded N w \<and> a < N \<and> card (unwatched N w) \<le> n"
  then show "\<exists>s w'. watchPojo n (VRef a) cb w = Inr (s, w')"
    using watchPojo_total [of N w a n cb] by blast
qed

text \<open>
  The first watch of \<open>{x: 0}\<close> and a second watch of the same object.
\<close>

theorem accessors_installed_once_witness:
  "\<exists>s w' cbs.
     watchPojo 3 (VRef 0) (OnChange 0 0) (init three) = Inr (s, w') \<and>
     wmap (init three) 0 = None \<and> wmap w' 0 = Some cbs \<and>
     (\<exists>nw. map_of (props (heap w' 0)) ''x'' = Some (Accessor (VNum (Fin 0)) nw (OnChange 0 0))) \<and>
     get_prop (heap w') (VRef 0) ''x'' = VNum (Fin 0) \<and>
     watchPojo 0 (VRef 0) (OnChange 1 1) w' =
       Inr (Sub 0 (OnChange 1 1), w'\<lparr>wmap := (wmap w')(0 \<mapsto> cbs @ [OnChange 1 1])\<rparr>)"
proof -
  have b: "bounded 3 (init three)"
    by (auto simp: bounded_def keys_def get_prop_def three_def literal_def init_def slot_val_def
        split: option.splits if_splits)
  have c: "card (unwatched 3 (init three)) \<le> 3"
    by (simp add: unwatched_def init_def)
  have new: "wmap (init three) 0 = None" by (simp add: init_def)
  have k: "keys (heap (init three)) (VRef 0) = [''x'']"
    and g: "get_prop (heap (init three)) (VRef 0) ''x'' = VNum (Fin 0)"
    by (simp_all add: keys_def get_prop_def three_def literal_def init_def slot_val_def)
  from accessors_installed_once [where w = "init three" and a = 0 and n = 3 and N = 3
      and cb = "OnChange 0 0"] b c
  have "\<exists>s w'. watchPojo 3 (VRef 0) (OnChange 0 0) (init three) = Inr (s, w')"
    by simp
  then obtain s w' where run: "watchPojo 3 (VRef 0) (OnChange 0 0) (init three) = Inr (s, w')"
    by blast
  note t = accessors_installed_once [where w = "init three" and a = 0 and n = 3
      and cb = "OnChange 0 0" and s = s and w' = w']
  from t run have "wmap w' 0 \<noteq> None" by blast
  then obtain cbs where reg: "wmap w' 0 = Some cbs" by auto
  from t run new have "\<forall>k \<in> set (keys (heap (init three)) (VRef 0)).
      \<exists>nw. map_of (props (heap w' 0)) k =
            Some (Accessor (get_prop (heap (init three)) (VRef 0) k) nw (OnChange 0 0))"
    by blast
  then have acc: "\<exists>nw. map_of (props (heap w' 0)) ''x'' = Some (Accessor (VNum (Fin 0)) nw (OnChange 0 0))"
    by (simp add: k g)
  from t run have "\<forall>v k. get_prop (heap w') v k = get_prop (heap (init three)) v k" by blast
  then have val: "get_prop (heap w') (VRef 0) ''x'' = VNum (Fin 0)" by (simp add: g)
  from accessors_installed_once [where w = w' and a = 0 and cbs = cbs and n = 0
      and cb = "OnChange 1 1"] reg
  have "watchPojo 0 (VRef 0) (OnChange 1 1) w' =
       Inr (Sub 0 (OnChange 1 1), w'\<lparr>wmap := (wmap w')(0 \<mapsto> cbs @ [OnChange 1 1])\<rparr>)"
    by simp
  with run new reg acc val show ?thesis by blast
qed

text \<open>
  C9. The exported function throws a TypeError for every target that is not an object:
  reading \<open>observe\<close> of undefined or null throws, and for the other primitives
  \<open>WeakMap.set\<close> throws. No subscription is returned.
\<close>

theorem primitive_target_throws:
  "(case obj of VRef a \<Rightarrow> False | _ \<Rightarrow> True) \<Longrightarrow> observe n obj cb w = Inl TypeError"
  by (cases obj)
     (simp_all add: observe_def observePojo_def get_prop_def typeof_def Let_def
        watchPojo.simps)

text \<open>A number, a string and undefined as targets.\<close>

theorem primitive_target_throws_witness:
  "observe 3 (VNum (Fin 5)) 7 (init three) = Inl TypeError \<and>
   observe 3 (VStr ''abc'') 7 (init three) = Inl TypeError \<and>
   observe 3 VUndefined 7 (init three) = Inl TypeError"
  using primitive_target_throws [of "VNum (Fin 5)" 3 7 "init three"]
    primitive_target_throws [of "VStr ''abc''" 3 7 "init three"]
    primitive_target_throws [of VUndefined 3 7 "init three"]
  by simp

section \<open>Drain sessions\<close>

lemma reset_Nil [simp]: "reset [] w = w"
  by (simp add: reset_def)

lemma reset_Cons: "reset ss (reset [s] w) = reset (s # ss) w"
  by (auto simp: reset_def fun_eq_iff)

lemma deliver_quiet: "deliver n quiet s (w, tr) = Inr (reset [s] w, tr @ [entry w s])"
proof -
  have "(collectors w)(s := (collectors w s)\<lparr>oldVals := []\<rparr>) =
        (\<lambda>s'. if s' \<in> set [s] then (collectors w s')\<lparr>oldVals := []\<rparr> else collectors w s')"
    by (auto simp: fun_eq_iff)
  then show ?thesis
    by (simp add: deliver_def quiet_def Let_def reset_def entry_def)
qed

lemma deliver_each_quiet:
  "distinct ss \<Longrightarrow> deliver_each n quiet ss (w, tr) = Inr (reset ss w, tr @ map (entry w) ss)"
proof (induction ss arbitrary: w tr)
  case Nil
  then show ?case by simp
next
  case (Cons s ss)
  then have "map (entry (reset [s] w)) ss = map (entry w) ss"
    by (auto simp: entry_def reset_def)
  with Cons show ?case
    by (simp add: deliver_quiet reset_Cons)
qed

lemma deliverAll_quiet:
  assumes "distinct (hotChangeCollectors w)"
  shows "deliverAllByTimeout (Suc (Suc k)) quiet (w, tr) =
         Inr (drained w, tr @ map (entry w) (sort (hotChangeCollectors w)))"
proof -
  let ?ss = "sort (hotChangeCollectors w)"
  let ?w1 = "w\<lparr>hotChangeCollectors := []\<rparr>"
  have d: "distinct ?ss" using assms by simp
  have e: "map (entry ?w1) ?ss = map (entry w) ?ss" by (simp add: entry_def)
  have r: "reset ?ss ?w1 = (reset (hotChangeCollectors w) w)\<lparr>hotChangeCollectors := []\<rparr>"
    by (simp add: reset_def cong: if_cong)
  have pass: "deliver_each (Suc k) quiet ?ss (?w1, tr) = Inr (reset ?ss ?w1, tr @ map (entry w) ?ss)"
    using deliver_each_quiet [OF d, of "Suc k" ?w1 tr] e by simp
  have last: "deliverAllByTimeout (Suc k) quiet (reset ?ss ?w1, tr') = Inr (drained w, tr')" for tr'
    by (simp add: deliverAllByTimeout.simps Let_def r drained_def reset_def cong: if_cong)
  show ?thesis
  proof (cases "?ss = []")
    case True
    then have "hotChangeCollectors w = []" by (metis length_sort length_0_conv)
    then show ?thesis by (simp add: deliverAllByTimeout.simps Let_def drained_def cong: if_cong)
  next
    case False
    then show ?thesis using pass last by (simp add: deliverAllByTimeout.simps Let_def)
  qed
qed

lemma deliver_seq:
  "deliver n prog s wt = Inr wt' \<Longrightarrow> map fst (snd wt') = map fst (snd wt) @ [s]"
  by (auto simp: deliver_def Let_def split: sum.splits)

lemma deliver_each_seqs:
  "deliver_each n prog ss wt = Inr wt' \<Longrightarrow> map fst (snd wt') = map fst (snd wt) @ ss"
proof (induction ss arbitrary: wt)
  case Nil
  then show ?case by simp
next
  case (Cons s ss)
  then obtain wt1 where 1: "deliver n prog s wt = Inr wt1" and 2: "deliver_each n prog ss wt1 = Inr wt'"
    by (auto split: sum.splits)
  from deliver_seq [OF 1] Cons.IH [OF 2] show ?case by simp
qed

lemma deliverAll_passes:
  "deliverAllByTimeout k prog wt = Inr wt' \<Longrightarrow>
   (\<exists>passes. map fst (snd wt') = map fst (snd wt) @ sort (hotChangeCollectors (fst wt)) @ concat passes \<and>
             (\<forall>p \<in> set passes. sorted p)) \<and>
   hotChangeCollectors (fst wt') = [] \<and> \<not> deliverHandle (fst wt')"
proof (induction k arbitrary: wt)
  case 0
  then show ?case by (simp add: deliverAllByTimeout.simps)
next
  case (Suc k)
  let ?ss = "sort (hotChangeCollectors (fst wt))"
  let ?w1 = "(fst wt)\<lparr>hotChangeCollectors := []\<rparr>"
  from Suc.prems obtain wt1 where pass: "deliver_each k prog ?ss (?w1, snd wt) = Inr wt1"
    and rest: "(if ?ss \<noteq> [] then deliverAllByTimeout k prog wt1
                else Inr ((fst wt1)\<lparr>deliverHandle := False\<rparr>, snd wt1)) = Inr wt'"
    by (auto simp: deliverAllByTimeout.simps Let_def split: sum.splits)
  from deliver_each_seqs [OF pass] have seqs: "map fst (snd wt1) = map fst (snd wt) @ ?ss" by simp
  show ?case
  proof (cases "?ss = []")
    case True
    with pass rest have "wt' = (?w1\<lparr>deliverHandle := False\<rparr>, snd wt)" by auto
    with True show ?thesis by (auto intro: exI [of _ "[]"])
  next
    case False
    with rest have "deliverAllByTimeout k prog wt1 = Inr wt'" by simp
    from Suc.IH [OF this] obtain passes where
      p: "map fst (snd wt') = map fst (snd wt1) @ sort (hotChangeCollectors (fst wt1)) @ concat passes"
      "\<forall>p \<in> set passes. sorted p"
      and e: "hotChangeCollectors (fst wt') = []" "\<not> deliverHandle (fst wt')"
      by blast
    from p seqs have
      "map fst (snd wt') = map fst (snd wt) @ ?ss @ concat (sort (hotChangeCollectors (fst wt1)) # passes)"
      "\<forall>p \<in> set (sort (hotChangeCollectors (fst wt1)) # passes). sorted p"
      by simp_all
    with e show ?thesis by blast
  qed
qed

lemma sort_three:
  assumes "o1 < o2" "o2 < o3" "distinct xs" "set xs = {o1, o2, o3 :: nat}"
  shows "sort xs = [o1, o2, o3]"
proof (rule sorted_distinct_set_unique)
  show "sorted (sort xs)" by simp
  show "distinct (sort xs)" using assms by simp
  show "sorted [o1, o2, o3]" using assms by simp
  show "distinct [o1, o2, o3]" using assms by auto
  show "set (sort xs) = set [o1, o2, o3]" using assms by auto
qed

lemma observePojo_seq:
  assumes "observePojo n pojo cb w = Inr (sb, w')"
  shows "seq w' = Suc (seq w) \<and> (\<exists>a f. sb = Sub a (OnChange f (seq w))) \<and>
         callback (collectors w' (seq w)) = cb"
proof -
  let ?w1 = "w\<lparr>seq := Suc (seq w),
               collectors := (collectors w)(seq w := \<lparr>callback = cb, oldVals = []\<rparr>)\<rparr>"
  from assms have r: "watchPojo n pojo (OnChange (fid w) (seq w)) (?w1\<lparr>fid := Suc (fid w)\<rparr>) = Inr (sb, w')"
    by (simp add: observePojo_def Let_def)
  from watch_cside [OF r] have "seq w' = Suc (seq w)" "collectors w' = collectors ?w1"
    by (simp_all add: cside_def)
  moreover from r have "\<exists>a. sb = Sub a (OnChange (fid w) (seq w))"
    by (cases rule: watchPojo_cases) auto
  ultimately show ?thesis by auto
qed

lemma deliverAll_session:
  "deliverAllByTimeout k prog wt = Inr wt' \<longleftrightarrow>
   (\<exists>wts. session k prog (wt # wts) \<and>
          wt' = ((fst (last (wt # wts)))\<lparr>deliverHandle := False\<rparr>, snd (last (wt # wts))))"
proof (induction k arbitrary: wt)
  case 0
  show ?case by (simp add: deliverAllByTimeout.simps)
next
  case (Suc k)
  let ?ss = "sort (hotChangeCollectors (fst wt))"
  let ?w1 = "(fst wt)\<lparr>hotChangeCollectors := []\<rparr>"
  show ?case
  proof (cases "hotChangeCollectors (fst wt) = []")
    case True
    then have same: "?w1 = fst wt" by simp
    from True have run: "deliverAllByTimeout (Suc k) prog wt = Inr ((fst wt)\<lparr>deliverHandle := False\<rparr>, snd wt)"
      by (simp add: deliverAllByTimeout.simps Let_def same)
    have only: "session (Suc k) prog (wt # wts) \<longleftrightarrow> wts = []" for wts
      using True by (cases wts) simp_all
    show ?thesis unfolding run only by auto
  next
    case False
    then have ne: "?ss \<noteq> []" by (metis length_sort length_0_conv)
    show ?thesis
    proof
      assume run: "deliverAllByTimeout (Suc k) prog wt = Inr wt'"
      with ne obtain wt1 where pass: "deliver_each k prog ?ss (?w1, snd wt) = Inr wt1"
        and rest: "deliverAllByTimeout k prog wt1 = Inr wt'"
        by (auto simp: deliverAllByTimeout.simps Let_def split: sum.splits)
      from rest Suc.IH [of wt1] obtain wts where
        s: "session k prog (wt1 # wts)"
        and e: "wt' = ((fst (last (wt1 # wts)))\<lparr>deliverHandle := False\<rparr>, snd (last (wt1 # wts)))"
        by blast
      from False pass s have "session (Suc k) prog (wt # wt1 # wts)" by simp
      moreover from e have
        "wt' = ((fst (last (wt # wt1 # wts)))\<lparr>deliverHandle := False\<rparr>, snd (last (wt # wt1 # wts)))"
        by simp
      ultimately show "\<exists>wts. session (Suc k) prog (wt # wts) \<and>
          wt' = ((fst (last (wt # wts)))\<lparr>deliverHandle := False\<rparr>, snd (last (wt # wts)))"
        by blast
    next
      assume "\<exists>wts. session (Suc k) prog (wt # wts) \<and>
          wt' = ((fst (last (wt # wts)))\<lparr>deliverHandle := False\<rparr>, snd (last (wt # wts)))"
      then obtain wts where s: "session (Suc k) prog (wt # wts)"
        and e: "wt' = ((fst (last (wt # wts)))\<lparr>deliverHandle := False\<rparr>, snd (last (wt # wts)))"
        by blast
      from s False obtain wt1 wts1 where wts: "wts = wt1 # wts1" by (cases wts) auto
      with s have pass: "deliver_each k prog ?ss (?w1, snd wt) = Inr wt1"
        and s1: "session k prog (wt1 # wts1)"
        by simp_all
      from e wts have
        "wt' = ((fst (last (wt1 # wts1)))\<lparr>deliverHandle := False\<rparr>, snd (last (wt1 # wts1)))"
        by simp
      with s1 Suc.IH [of wt1] have "deliverAllByTimeout k prog wt1 = Inr wt'" by blast
      with pass ne show "deliverAllByTimeout (Suc k) prog wt = Inr wt'"
        by (simp add: deliverAllByTimeout.simps Let_def)
    qed
  qed
qed

lemma session_seqs:
  "session k prog wts \<Longrightarrow>
   map fst (snd (last wts)) =
     map fst (snd (hd wts)) @ concat (map (\<lambda>wt. sort (hotChangeCollectors (fst wt))) wts)"
proof (induction k prog wts rule: session.induct)
  case (4 n prog wt wt' wts)
  from "4.prems" have pass: "deliver_each n prog (sort (hotChangeCollectors (fst wt)))
        ((fst wt)\<lparr>hotChangeCollectors := []\<rparr>, snd wt) = Inr wt'"
    and s: "session n prog (wt' # wts)"
    by simp_all
  from deliver_each_seqs [OF pass]
  have "map fst (snd wt') = map fst (snd wt) @ sort (hotChangeCollectors (fst wt))" by simp
  with "4.IH" [OF s] show ?case by simp
qed simp_all

text \<open>
  C1. Collectors get their \<open>_seq\<close> in the order the observers are registered. The drain
  returns exactly when there is a drain session of the documented form (repeat: take and
  clear the entire pending set, sort it by \<open>_seq\<close> ascending, deliver each collector taken
  in that order; until a pass finds the pending set empty) within the fuel, and then it
  returns the last state of that session with the handle cleared. The observers called in
  a session are, in order, the sorted pending sets of its passes, one after the other;
  the first are all the collectors that were hot at its start, in ascending \<open>_seq\<close>,
  whatever the order in which they became hot, and the session ends with an empty pending
  set and no handle. Three collectors \<open>o1 < o2 < o3\<close> that are hot, in any order of becoming
  hot, are delivered in the order \<open>o1, o2, o3\<close>. With callbacks that change nothing the
  session returns after the pass that finds the pending set empty.
\<close>

theorem delivery_in_registration_order:
  "(observePojo n pojo cb w = Inr (sb, w2) \<longrightarrow>
      seq w2 = Suc (seq w) \<and> (\<exists>a f. sb = Sub a (OnChange f (seq w))) \<and>
      callback (collectors w2 (seq w)) = cb) \<and>
   (deliverAllByTimeout k prog (w, tr) = Inr (w', tr') \<longleftrightarrow>
      (\<exists>wts. session k prog ((w, tr) # wts) \<and>
             w' = (fst (last ((w, tr) # wts)))\<lparr>deliverHandle := False\<rparr> \<and>
             tr' = snd (last ((w, tr) # wts)))) \<and>
   (session k prog wts \<longrightarrow>
      map fst (snd (last wts)) =
        map fst (snd (hd wts)) @ concat (map (\<lambda>wt. sort (hotChangeCollectors (fst wt))) wts)) \<and>
   (deliverAllByTimeout k prog (w, tr) = Inr (w', tr') \<longrightarrow>
      (\<exists>rest. map fst tr' = map fst tr @ sort (hotChangeCollectors w) @ rest) \<and>
      hotChangeCollectors w' = [] \<and> \<not> deliverHandle w' \<and>
      (o1 < o2 \<and> o2 < o3 \<and> distinct (hotChangeCollectors w) \<and> set (hotChangeCollectors w) = {o1, o2, o3} \<longrightarrow>
         (\<exists>rest. map fst tr' = map fst tr @ [o1, o2, o3] @ rest))) \<and>
   (distinct (hotChangeCollectors w) \<longrightarrow>
      deliverAllByTimeout (Suc (Suc k)) quiet (w, tr) =
        Inr (drained w, tr @ map (entry w) (sort (hotChangeCollectors w))))"
proof (intro conjI impI)
  assume "observePojo n pojo cb w = Inr (sb, w2)"
  from observePojo_seq [OF this]
  show "seq w2 = Suc (seq w)" and "\<exists>a f. sb = Sub a (OnChange f (seq w))"
    and "callback (collectors w2 (seq w)) = cb"
    by simp_all
next
  show "deliverAllByTimeout k prog (w, tr) = Inr (w', tr') \<longleftrightarrow>
      (\<exists>wts. session k prog ((w, tr) # wts) \<and>
             w' = (fst (last ((w, tr) # wts)))\<lparr>deliverHandle := False\<rparr> \<and>
             tr' = snd (last ((w, tr) # wts)))"
    unfolding deliverAll_session [of k prog "(w, tr)" "(w', tr')"] prod.inject ..
next
  assume "session k prog wts"
  then show "map fst (snd (last wts)) =
        map fst (snd (hd wts)) @ concat (map (\<lambda>wt. sort (hotChangeCollectors (fst wt))) wts)"
    by (rule session_seqs)
next
  assume run: "deliverAllByTimeout k prog (w, tr) = Inr (w', tr')"
  from deliverAll_passes [OF run]
  show "\<exists>rest. map fst tr' = map fst tr @ sort (hotChangeCollectors w) @ rest"
    and "hotChangeCollectors w' = []" and "\<not> deliverHandle w'"
    by auto
  assume "o1 < o2 \<and> o2 < o3 \<and> distinct (hotChangeCollectors w) \<and> set (hotChangeCollectors w) = {o1, o2, o3}"
  then have "sort (hotChangeCollectors w) = [o1, o2, o3]"
    by (simp add: sort_three)
  with deliverAll_passes [OF run]
  show "\<exists>rest. map fst tr' = map fst tr @ [o1, o2, o3] @ rest"
    by auto
next
  assume "distinct (hotChangeCollectors w)"
  then show "deliverAllByTimeout (Suc (Suc k)) quiet (w, tr) =
        Inr (drained w, tr @ map (entry w) (sort (hotChangeCollectors w)))"
    by (rule deliverAll_quiet)
qed

text \<open>
  Observers 10, 11 and 12 are registered in this order on the three objects, which are then
  changed in the order third, first, second. And a session of three passes: only the third
  object is changed, and the callback of its observer changes the second and then the
  first.
\<close>

theorem delivery_in_registration_order_witness:
  "\<exists>w w' tr' v v' wt1 wt2.
     run_actions 1
       [Observe (VRef 0) 10, Observe (VRef 1) 11, Observe (VRef 2) 12,
        Assign 2 ''z'' (VNum (Fin 1)), Assign 0 ''x'' (VNum (Fin 1)), Assign 1 ''y'' (VNum (Fin 1))]
       (init three) = Inr w \<and>
     hotChangeCollectors w = [2, 0, 1] \<and>
     deliverAllByTimeout 2 quiet (w, []) = Inr (w', tr') \<and>
     tr' = [(0, 10, [(''x'', VNum (Fin 0))]), (1, 11, [(''y'', VNum (Fin 0))]),
            (2, 12, [(''z'', VNum (Fin 0))])] \<and>
     (\<exists>rest. map fst tr' = [0, 1, 2] @ rest) \<and>
     hotChangeCollectors w' = [] \<and> \<not> deliverHandle w' \<and>
     (\<exists>sb w2. observePojo 1 (VRef 0) 10 (init three) = Inr (sb, w2) \<and>
        seq (init three) = 0 \<and> seq w2 = 1 \<and> callback (collectors w2 0) = 10) \<and>
     run_actions 1
       [Observe (VRef 0) 10, Observe (VRef 1) 11, Observe (VRef 2) 12,
        Assign 2 ''z'' (VNum (Fin 1))]
       (init three) = Inr v \<and>
     hotChangeCollectors v = [2] \<and>
     session 3 cascade [(v, []), wt1, wt2] \<and>
     hotChangeCollectors (fst wt1) = [1, 0] \<and> hotChangeCollectors (fst wt2) = [] \<and>
     deliverAllByTimeout 3 cascade (v, []) = Inr (v', snd wt2) \<and>
     snd wt2 = [(2, 12, [(''z'', VNum (Fin 0))]), (0, 10, [(''x'', VNum (Fin 0))]),
                (1, 11, [(''y'', VNum (Fin 0))])] \<and>
     map fst (snd wt2) = concat [[2], [0, 1], []]"
proof -
  have "\<exists>sb w2. observePojo 1 (VRef 0) 10 (init three) = Inr (sb, w2)"
    by (simp add: eval_defs three_def)
  then obtain sb w2 where ob: "observePojo 1 (VRef 0) 10 (init three) = Inr (sb, w2)"
    by blast
  have s0: "seq (init three) = 0" by (simp add: init_def)
  from delivery_in_registration_order [where n = 1 and pojo = "VRef 0" and cb = 10
      and w = "init three" and sb = sb and ?w2.0 = w2] ob s0
  have reg: "seq w2 = 1 \<and> callback (collectors w2 0) = 10" by simp
  have "\<exists>w. run_actions 1
       [Observe (VRef 0) 10, Observe (VRef 1) 11, Observe (VRef 2) 12,
        Assign 2 ''z'' (VNum (Fin 1)), Assign 0 ''x'' (VNum (Fin 1)), Assign 1 ''y'' (VNum (Fin 1))]
       (init three) = Inr w \<and>
     hotChangeCollectors w = [2, 0, 1] \<and>
     map (entry w) [0, 1, 2] =
       [(0, 10, [(''x'', VNum (Fin 0))]), (1, 11, [(''y'', VNum (Fin 0))]),
        (2, 12, [(''z'', VNum (Fin 0))])]"
    by (simp add: eval_defs three_def entry_def)
  then obtain w where all: "run_actions 1
       [Observe (VRef 0) 10, Observe (VRef 1) 11, Observe (VRef 2) 12,
        Assign 2 ''z'' (VNum (Fin 1)), Assign 0 ''x'' (VNum (Fin 1)), Assign 1 ''y'' (VNum (Fin 1))]
       (init three) = Inr w \<and>
     hotChangeCollectors w = [2, 0, 1] \<and>
     map (entry w) [0, 1, 2] =
       [(0, 10, [(''x'', VNum (Fin 0))]), (1, 11, [(''y'', VNum (Fin 0))]),
        (2, 12, [(''z'', VNum (Fin 0))])]" ..
  note run = all [THEN conjunct1]
    and hot = all [THEN conjunct2, THEN conjunct1]
    and ent = all [THEN conjunct2, THEN conjunct2]
  let ?tr = "[(0, 10, [(''x'', VNum (Fin 0))]), (1, 11, [(''y'', VNum (Fin 0))]),
        (2, 12, [(''z'', VNum (Fin 0))])]"
  have srt: "sort [2, 0, 1 :: nat] = [0, 1, 2]" by simp
  note t0 = delivery_in_registration_order
    [where w = w and tr = "[]" and k = 0 and prog = quiet and w' = "drained w" and tr' = ?tr
       and ?o1.0 = 0 and ?o2.0 = 1 and ?o3.0 = 2]
  note t2 = delivery_in_registration_order
    [where w = w and tr = "[]" and k = 2 and prog = quiet and w' = "drained w" and tr' = ?tr
       and ?o1.0 = 0 and ?o2.0 = 1 and ?o3.0 = 2]
  from t0 hot have d: "deliverAllByTimeout 2 quiet (w, []) = Inr (drained w, ?tr)"
    using ent srt by (simp add: numeral_2_eq_2)
  with t2 hot have quiet_part: "(\<exists>rest. map fst ?tr = [0, 1, 2] @ rest) \<and>
     hotChangeCollectors (drained w) = [] \<and> \<not> deliverHandle (drained w)"
    by auto
  let ?tc = "[(2, 12, [(''z'', VNum (Fin 0))]), (0, 10, [(''x'', VNum (Fin 0))]),
                (1, 11, [(''y'', VNum (Fin 0))])]"
  define v where "v = projr (run_actions 1
       [Observe (VRef 0) 10, Observe (VRef 1) 11, Observe (VRef 2) 12,
        Assign 2 ''z'' (VNum (Fin 1))]
       (init three))"
  define wt1 where "wt1 = projr (deliver_each 2 cascade (sort (hotChangeCollectors v))
       (v\<lparr>hotChangeCollectors := []\<rparr>, []))"
  define wt2 where "wt2 = projr (deliver_each 1 cascade (sort (hotChangeCollectors (fst wt1)))
       ((fst wt1)\<lparr>hotChangeCollectors := []\<rparr>, snd wt1))"
  have crun: "run_actions 1
       [Observe (VRef 0) 10, Observe (VRef 1) 11, Observe (VRef 2) 12,
        Assign 2 ''z'' (VNum (Fin 1))]
       (init three) = Inr v"
    and chot: "hotChangeCollectors v = [2]"
    by (simp_all add: v_def eval_defs three_def)
  have h1: "hotChangeCollectors (fst wt1) = [1, 0]"
    by (simp add: v_def wt1_def eval_defs three_def cascade_def)
  have ses: "session 3 cascade [(v, []), wt1, wt2]"
    by (simp add: v_def wt1_def wt2_def eval_defs three_def cascade_def)
  have h2: "hotChangeCollectors (fst wt2) = []" and tr2: "snd wt2 = ?tc"
    by (simp_all add: v_def wt1_def wt2_def eval_defs three_def cascade_def)
  note t3 = delivery_in_registration_order
    [where w = v and tr = "[]" and k = 3 and prog = cascade and wts = "[(v, []), wt1, wt2]"
       and w' = "(fst wt2)\<lparr>deliverHandle := False\<rparr>" and tr' = "snd wt2"]
  have "\<exists>wts. session 3 cascade ((v, []) # wts) \<and>
       (fst wt2)\<lparr>deliverHandle := False\<rparr> = (fst (last ((v, []) # wts)))\<lparr>deliverHandle := False\<rparr> \<and>
       snd wt2 = snd (last ((v, []) # wts))"
    using ses by (intro exI [of _ "[wt1, wt2]"]) simp
  with t3 have cdrain:
    "deliverAllByTimeout 3 cascade (v, []) = Inr ((fst wt2)\<lparr>deliverHandle := False\<rparr>, snd wt2)"
    by blast
  from t3 ses have "map fst (snd (last [(v, []), wt1, wt2])) =
      map fst (snd (hd [(v, []), wt1, wt2])) @
      concat (map (\<lambda>wt. sort (hotChangeCollectors (fst wt))) [(v, []), wt1, wt2])"
    by blast
  with chot h1 h2 have order: "map fst (snd wt2) = concat [[2], [0, 1], []]"
    by simp
  from run hot d quiet_part ob s0 reg crun chot ses h1 h2 cdrain tr2 order
  show ?thesis by blast
qed

lemma fst_entry [simp]: "fst (entry w s) = s"
  by (simp add: entry_def)

lemma filter_entry_none:
  "s \<notin> set ss \<Longrightarrow> filter (\<lambda>e. fst e = s) (map (entry w) ss) = []"
  by (induction ss) auto

lemma filter_entry:
  "distinct ss \<Longrightarrow> s \<in> set ss \<Longrightarrow> filter (\<lambda>e. fst e = s) (map (entry w) ss) = [entry w s]"
  by (induction ss) (auto simp: filter_entry_none)

lemma remove_cside [simp]: "cside (remove sb w) = cside w"
  by (cases sb) (simp add: remove.simps cside_def split: option.splits)

lemma remove_heap [simp]: "heap (remove sb w) = heap w"
  by (cases sb) (simp add: remove.simps split: option.splits)

lemma remove_wmap:
  "wmap w a = Some cbs \<Longrightarrow> wmap (remove (Sub a cb) w) = (wmap w)(a \<mapsto> remove1 cb cbs)"
  by (simp add: remove.simps)

lemma entry_cside: "cside w' = cside w \<Longrightarrow> entry w' = entry w"
  by (auto simp: cside_def entry_def fun_eq_iff)

text \<open>
  C8. The \<open>remove\<close> of a handle changes the listener array of the handle's object and
  nothing else: the pending set, the collectors and their maps stay as they are. A collector
  that is hot is therefore still delivered in the next drain session, and exactly once, with
  the map it had, when the callbacks change nothing.
\<close>

theorem remove_keeps_pending:
  "hotChangeCollectors (remove sb w) = hotChangeCollectors w \<and>
   collectors (remove sb w) = collectors w \<and>
   deliverHandle (remove sb w) = deliverHandle w \<and>
   heap (remove sb w) = heap w \<and>
   (wmap w a = Some cbs \<longrightarrow> wmap (remove (Sub a cb) w) = (wmap w)(a \<mapsto> remove1 cb cbs)) \<and>
   (s \<in> set (hotChangeCollectors w) \<and> deliverAllByTimeout k prog (remove sb w, tr) = Inr (w', tr') \<longrightarrow>
      s \<in> set (drop (length tr) (map fst tr'))) \<and>
   (s \<in> set (hotChangeCollectors w) \<and> distinct (hotChangeCollectors w) \<longrightarrow>
      deliverAllByTimeout (Suc (Suc k)) quiet (remove sb w, tr) =
        Inr (drained (remove sb w), tr @ map (entry w) (sort (hotChangeCollectors w))) \<and>
      filter (\<lambda>e. fst e = s) (map (entry w) (sort (hotChangeCollectors w))) =
        [(s, callback (collectors w s), oldVals (collectors w s))])"
proof -
  have c: "cside (remove sb w) = cside w" by simp
  then have f: "hotChangeCollectors (remove sb w) = hotChangeCollectors w"
    "collectors (remove sb w) = collectors w" "deliverHandle (remove sb w) = deliverHandle w"
    by (simp_all add: cside_def)
  have g: "s \<in> set (drop (length tr) (map fst tr'))"
    if "s \<in> set (hotChangeCollectors w)"
      and run: "deliverAllByTimeout k prog (remove sb w, tr) = Inr (w', tr')"
  proof -
    from deliverAll_passes [OF run] f obtain passes where
      "map fst tr' = map fst tr @ sort (hotChangeCollectors w) @ concat passes"
      by auto
    then have "drop (length tr) (map fst tr') = sort (hotChangeCollectors w) @ concat passes"
      by simp
    with that(1) show ?thesis by simp
  qed
  have h: "deliverAllByTimeout (Suc (Suc k)) quiet (remove sb w, tr) =
        Inr (drained (remove sb w), tr @ map (entry w) (sort (hotChangeCollectors w)))"
    if "distinct (hotChangeCollectors w)"
    using deliverAll_quiet [of "remove sb w" k tr] that f entry_cside [OF c] by simp
  have i: "filter (\<lambda>e. fst e = s) (map (entry w) (sort (hotChangeCollectors w))) =
        [(s, callback (collectors w s), oldVals (collectors w s))]"
    if "s \<in> set (hotChangeCollectors w)" "distinct (hotChangeCollectors w)"
    using filter_entry [of "sort (hotChangeCollectors w)" s w] that by (simp add: entry_def)
  show ?thesis using f g h i remove_wmap [of w a cbs cb] by simp
qed

text \<open>
  An observer of \<open>{x: 0}\<close> whose handle is removed after \<open>x\<close> was changed: the
  observer is still called in the next drain session.
\<close>

theorem remove_keeps_pending_witness:
  "\<exists>w w'. run_actions 1 [Observe (VRef 0) 7, Assign 0 ''x'' (VNum (Fin 1))] (init three) = Inr w \<and>
     hotChangeCollectors w = [0] \<and>
     wmap w 0 = Some [OnChange 0 0] \<and>
     wmap (remove (Sub 0 (OnChange 0 0)) w) 0 = Some [] \<and>
     hotChangeCollectors (remove (Sub 0 (OnChange 0 0)) w) = [0] \<and>
     deliverAllByTimeout 2 quiet (remove (Sub 0 (OnChange 0 0)) w, []) =
       Inr (w', [(0, 7, [(''x'', VNum (Fin 0))])]) \<and>
     0 \<in> set (drop (length ([] :: trace)) (map fst [(0 :: nat, 7 :: nat, [(''x'', VNum (Fin 0))])]))"
proof -
  have "\<exists>w. run_actions 1 [Observe (VRef 0) 7, Assign 0 ''x'' (VNum (Fin 1))] (init three) = Inr w \<and>
     hotChangeCollectors w = [0] \<and> wmap w 0 = Some [OnChange 0 0] \<and>
     entry w 0 = (0, 7, [(''x'', VNum (Fin 0))])"
    by (simp add: eval_defs three_def entry_def)
  then obtain w where run: "run_actions 1 [Observe (VRef 0) 7, Assign 0 ''x'' (VNum (Fin 1))] (init three) = Inr w"
    and hot: "hotChangeCollectors w = [0]" and reg: "wmap w 0 = Some [OnChange 0 0]"
    and ent: "entry w 0 = (0, 7, [(''x'', VNum (Fin 0))])"
    by blast
  note t = remove_keeps_pending [where sb = "Sub 0 (OnChange 0 0)" and w = w and a = 0
      and cbs = "[OnChange 0 0]" and cb = "OnChange 0 0" and s = 0 and k = 0 and tr = "[]"]
  from t reg have 1: "wmap (remove (Sub 0 (OnChange 0 0)) w) 0 = Some []" by simp
  from t hot have 2: "hotChangeCollectors (remove (Sub 0 (OnChange 0 0)) w) = [0]" by simp
  from t hot ent have 3: "deliverAllByTimeout 2 quiet (remove (Sub 0 (OnChange 0 0)) w, []) =
       Inr (drained (remove (Sub 0 (OnChange 0 0)) w), [(0, 7, [(''x'', VNum (Fin 0))])])"
    by (simp add: numeral_2_eq_2)
  from remove_keeps_pending [where sb = "Sub 0 (OnChange 0 0)" and w = w and s = 0 and k = 2
      and prog = quiet and tr = "[]" and w' = "drained (remove (Sub 0 (OnChange 0 0)) w)"
      and tr' = "[(0, 7, [(''x'', VNum (Fin 0))])]"] hot 3
  have 4: "0 \<in> set (drop (length ([] :: trace)) (map fst [(0 :: nat, 7 :: nat, [(''x'', VNum (Fin 0))])]))"
    by simp
  from run hot reg 1 2 3 4 show ?thesis by blast
qed

section \<open>Batching\<close>


lemma onChange_requests [simp]: "deliverHandle (onChange s p ov w)"
  by (simp add: onChange_def Let_def)







lemma typeof_callable:
  "(\<And>b. callable (h' b) = callable (h b)) \<Longrightarrow> typeof h' v = typeof h v"
  by (cases v) (simp_all add: typeof_def)



lemma typeof_defineProperty [simp]:
  "typeof (heap (defineProperty a p sl w)) v = typeof (heap w) v"
  by (rule typeof_callable) simp

lemma remove_fid [simp]: "fid (remove sb w) = fid w"
  by (cases sb) (simp add: remove.simps split: option.splits)

lemma typeof_remove [simp]: "typeof (heap (remove sb w)) v = typeof (heap w) v"
  by simp


subsection \<open>Invariants of client actions\<close>











lemma init_pending: "pending_ok (init h)"
  by (simp add: pending_ok_def init_def)

lemma drained_pending: "pending_ok w \<Longrightarrow> pending_ok (drained w)"
  by (auto simp: pending_ok_def drained_def reset_def)

lemma onChange_frame [simp]:
  "heap (onChange s p ov w) = heap w" "wmap (onChange s p ov w) = wmap w"
  "fid (onChange s p ov w) = fid w" "seq (onChange s p ov w) = seq w"
  by (simp_all add: onChange_def Let_def)

lemma call_listener_frame [simp]:
  "heap (call_listener l p ov nv w) = heap w" "wmap (call_listener l p ov nv w) = wmap w"
  "fid (call_listener l p ov nv w) = fid w" "seq (call_listener l p ov nv w) = seq w"
  by (induction l arbitrary: p) simp_all

lemma fold_listeners_frame [simp]:
  "heap (fold (\<lambda>l. call_listener l p ov nv) ls w) = heap w"
  "wmap (fold (\<lambda>l. call_listener l p ov nv) ls w) = wmap w"
  "fid (fold (\<lambda>l. call_listener l p ov nv) ls w) = fid w"
  "seq (fold (\<lambda>l. call_listener l p ov nv) ls w) = seq w"
  by (induction ls arbitrary: w) simp_all

lemma notify_frame [simp]:
  "heap (notify a p ov nv w) = heap w" "wmap (notify a p ov nv w) = wmap w"
  "fid (notify a p ov nv w) = fid w" "seq (notify a p ov nv w) = seq w"
  by (simp_all add: notify_def)






text \<open>Every call of a listener requests a delivery.\<close>

lemma call_listener_requests [simp]: "deliverHandle (call_listener l p ov nv w)"
  by (induction l arbitrary: p) simp_all









section \<open>Where the code departs from its documentation\<close>

text \<open>
  C3. Two observers, 7 and then 8, of \<open>o = {a: {b: 1}}\<close>; then \<open>o.a.b = 2\<close>. The nested
  object has one listener, the closure made when the accessors of \<open>o\<close> were installed,
  and that closure calls the listener of observer 7 only. The listener of observer 8 is
  attached to \<open>o\<close> and is not called: its collector records nothing and observer 8 is
  never told of the change.
\<close>

theorem nested_change_reaches_first_listener_only:
  "\<exists>w. run_actions 2
          [Observe (VRef 0) 7, Observe (VRef 0) 8, Assign 1 ''b'' (VNum (Fin 2))]
          (init nested) = Inr w \<and>
        wmap w 0 = Some [OnChange 0 0, OnChange 2 1] \<and>
        wmap w 1 = Some [Repath 1 ''a'' (OnChange 0 0)] \<and>
        oldVals (collectors w 0) = [(''a.b'', VNum (Fin 1))] \<and>
        oldVals (collectors w 1) = [] \<and>
        hotChangeCollectors w = [0] \<and>
        map_sum id snd (deliverAllByTimeout 2 quiet (w, [])) =
          Inr [(0, 7, [(''a.b'', VNum (Fin 1))])]"
  by (simp add: eval_defs nested_def)

text \<open>
  C4. Replacing \<open>{b: 1, c: 2}\<close> by \<open>{b: 1, c: 3, d: 4}\<close> reports \<open>a.c\<close> with 2 and
  \<open>a.d\<close> with undefined and does not report \<open>a.b\<close>. But where the old value of a key is
  a truthy primitive and the new value is an object with a key, the diff evaluates
  \<open>prop in oldObj\<close> on the primitive and throws a TypeError instead of reporting the
  leaves of the new object: so does the assignment \<open>o.a = {b: 2}\<close> on the observed
  \<open>o = {a: 1}\<close>, and so does the diff of the old snapshot \<open>{a: 1}\<close> against the new
  object \<open>{a: {b: 1, c: 2}}\<close>.
\<close>

theorem diff_throws_on_primitive_old_value:
  "(\<exists>w. run_actions 2 [Observe (VRef 0) 7, Assign 0 ''a'' (VRef 2)] (init replaced) = Inr w \<and>
        oldVals (collectors w 0) = [(''a.c'', VNum (Fin 2)), (''a.d'', VUndefined)]) \<and>
   run_actions 2 [Observe (VRef 3) 7, Assign 3 ''a'' (VRef 4)] (init replaced) = Inl TypeError \<and>
   diff 2 (VRef 3) (VRef 0) (\<lambda>p ov nv w. w) ''o.'' (init replaced) = Inl TypeError"
  by (simp add: eval_defs replaced_def diff_props.simps)

text \<open>
  C6. An observer of \<open>o = {a: {b: 1}}\<close> whose handle is removed at once; then
  \<open>o.a.b = 2\<close>. The \<open>remove\<close> takes the observer's listener out of the listener array of
  \<open>o\<close>, but the closure attached to the nested object still calls that listener: the
  collector becomes hot and the next drain session calls the observer.
\<close>

theorem removed_observer_still_called:
  "map_sum id fst (observe 2 (VRef 0) 7 (init nested)) = Inr (Own (Sub 0 (OnChange 0 0))) \<and>
   (\<exists>w. run_actions 2
          [Observe (VRef 0) 7, Unobserve (Sub 0 (OnChange 0 0)), Assign 1 ''b'' (VNum (Fin 2))]
          (init nested) = Inr w \<and>
        wmap w 0 = Some [] \<and>
        wmap w 1 = Some [Repath 1 ''a'' (OnChange 0 0)] \<and>
        hotChangeCollectors w = [0] \<and>
        map_sum id snd (deliverAllByTimeout 2 quiet (w, [])) =
          Inr [(0, 7, [(''a.b'', VNum (Fin 1))])])"
  by (simp add: eval_defs nested_def)

end
